theory Spec2Isabelle
  imports Complex_Main
begin

section \<open>Texts, code points and the regular-expression character classes\<close>

text \<open>
  A Python \<open>str\<close> is a sequence of Unicode code points; \<open>len\<close> counts code points.
  A text is therefore a list of code points (natural numbers), not a list of bytes.
\<close>

type_synonym ustring = "nat list"

text \<open>
  The Unicode character database belongs to the language runtime, not to the repository.
  The classification of the ASCII range is written out; the classification of every other
  code point is a parameter of the model.
\<close>

record unicode_tables =
  alpha_tab :: "nat \<Rightarrow> bool"
  digit_tab :: "nat \<Rightarrow> bool"

definition isalpha :: "unicode_tables \<Rightarrow> nat \<Rightarrow> bool" where
  "isalpha U c =
     (if c < 128 then (65 \<le> c \<and> c \<le> 90) \<or> (97 \<le> c \<and> c \<le> 122) else alpha_tab U c)"

definition isdigit :: "unicode_tables \<Rightarrow> nat \<Rightarrow> bool" where
  "isdigit U c = (if c < 128 then 48 \<le> c \<and> c \<le> 57 else digit_tab U c)"

text \<open>
  Whitespace as \<open>str.split()\<close> and the pattern \<open>\s\<close> classify it: the ASCII
  controls 9..13 and 28..31, the space, and the Unicode separators.
\<close>

definition isspace :: "nat \<Rightarrow> bool" where
  "isspace c =
     ((9 \<le> c \<and> c \<le> 13) \<or> (28 \<le> c \<and> c \<le> 32) \<or> c = 133 \<or> c = 160 \<or> c = 5760
      \<or> (8192 \<le> c \<and> c \<le> 8202) \<or> c = 8232 \<or> c = 8233 \<or> c = 8239 \<or> c = 8287
      \<or> c = 12288)"

text \<open>The pattern class \<open>\w\<close>: alphanumeric code points and the underscore.\<close>

definition word_char :: "unicode_tables \<Rightarrow> nat \<Rightarrow> bool" where
  "word_char U c = (isalpha U c \<or> isdigit U c \<or> c = 95)"

text \<open>
  The anchor \<open>\b\<close> between a previous and a next code point (\<open>None\<close> at either end of
  the text): exactly one of the two sides is a word character.
\<close>

definition word_boundary :: "unicode_tables \<Rightarrow> nat option \<Rightarrow> nat option \<Rightarrow> bool" where
  "word_boundary U prev nxt =
     ((case prev of None \<Rightarrow> False | Some p \<Rightarrow> word_char U p)
      \<noteq> (case nxt of None \<Rightarrow> False | Some n \<Rightarrow> word_char U n))"

text \<open>The sentence-terminal marks of the class \<open>[.!?]\<close>.\<close>

definition terminal :: "nat \<Rightarrow> bool" where
  "terminal c = (c = 46 \<or> c = 33 \<or> c = 63)"

text \<open>\<open>str.split()\<close> without arguments: the maximal runs of non-whitespace.\<close>

fun split_ws :: "ustring \<Rightarrow> ustring \<Rightarrow> ustring list" where
  "split_ws cur [] = (if cur = [] then [] else [cur])"
| "split_ws cur (c # cs) =
     (if isspace c then (if cur = [] then split_ws [] cs else cur # split_ws [] cs)
      else split_ws (cur @ [c]) cs)"

definition str_split :: "ustring \<Rightarrow> ustring list" where
  "str_split s = split_ws [] s"

section \<open>Normalizer\<close>

text \<open>
  Modelled from the spec: \<open>remove_punctuation\<close> (backend/transformations) is not among
  the source files. The spec (4.1): every character that is not a letter, a digit or
  whitespace is removed, hyphens included; when apostrophes of contractions are kept
  (\<open>rm_apostrophe\<close> false), an apostrophe directly between two letters stays and every
  other apostrophe is removed.
\<close>

definition keeps_char :: "unicode_tables \<Rightarrow> bool \<Rightarrow> nat option \<Rightarrow> nat \<Rightarrow> ustring \<Rightarrow> bool" where
  "keeps_char U rm_apostrophe prev c cs =
     (isalpha U c \<or> isdigit U c \<or> isspace c
      \<or> (\<not> rm_apostrophe \<and> c = 39
          \<and> (case prev of None \<Rightarrow> False | Some p \<Rightarrow> isalpha U p)
          \<and> (case cs of [] \<Rightarrow> False | n # _ \<Rightarrow> isalpha U n)))"

fun strip_punct :: "unicode_tables \<Rightarrow> bool \<Rightarrow> nat option \<Rightarrow> ustring \<Rightarrow> ustring" where
  "strip_punct U rm_apostrophe prev [] = []"
| "strip_punct U rm_apostrophe prev (c # cs) =
     (if keeps_char U rm_apostrophe prev c cs
      then c # strip_punct U rm_apostrophe (Some c) cs
      else strip_punct U rm_apostrophe (Some c) cs)"

definition remove_punctuation :: "unicode_tables \<Rightarrow> ustring \<Rightarrow> bool \<Rightarrow> ustring" where
  "remove_punctuation U s rm_apostrophe = strip_punct U rm_apostrophe None s"

section \<open>Primitive counters\<close>

text \<open>
  Modelled from the spec: \<open>count_chars\<close> and \<open>count_words\<close> (backend/counts) are not among
  the source files. The spec (4.3): \<open>count_chars\<close> is the number of code points,
  optionally without whitespace; \<open>count_words\<close> splits on whitespace after the optional
  normalization and returns the number of tokens. The apostrophe policy that
  \<open>count_words\<close> hands to the normalizer is not stated, so it is the parameter \<open>ra\<close>.
\<close>

definition count_chars :: "ustring \<Rightarrow> bool \<Rightarrow> int" where
  "count_chars s ignore_spaces =
     int (length (if ignore_spaces then filter (\<lambda>c. \<not> isspace c) s else s))"

definition count_words :: "unicode_tables \<Rightarrow> bool \<Rightarrow> ustring \<Rightarrow> bool \<Rightarrow> int" where
  "count_words U ra s rm_punctuation =
     int (length (str_split (if rm_punctuation then remove_punctuation U s ra else s)))"

text \<open>
  \<open>re.findall(r"\b[^.!?]+[.!?]*", text, re.UNICODE)\<close>: the scan looks for the next
  position that is a word boundary and holds a non-terminal character; the match takes
  the longest run of non-terminal characters and then the longest run of terminal marks,
  and the scan goes on behind the match. \<open>prev\<close> is the code point before the position.
\<close>

function findall_sentences :: "unicode_tables \<Rightarrow> nat option \<Rightarrow> ustring \<Rightarrow> ustring list" where
  "findall_sentences U prev [] = []"
| "findall_sentences U prev (c # cs) =
     (if word_boundary U prev (Some c) \<and> \<not> terminal c
      then (c # takeWhile (\<lambda>x. \<not> terminal x) cs
              @ takeWhile terminal (dropWhile (\<lambda>x. \<not> terminal x) cs))
           # findall_sentences U
               (Some (last (c # takeWhile (\<lambda>x. \<not> terminal x) cs
                              @ takeWhile terminal (dropWhile (\<lambda>x. \<not> terminal x) cs))))
               (dropWhile terminal (dropWhile (\<lambda>x. \<not> terminal x) cs))
      else findall_sentences U (Some c) cs)"
  by pat_completeness auto
termination
proof (relation "measure (\<lambda>(U, prev, s). length s)")
  show "wf (measure (\<lambda>(U, prev, s). length s))"
    by simp
next
  fix U :: unicode_tables and prev :: "nat option" and c :: nat and cs :: ustring
  have "length (dropWhile terminal (dropWhile (\<lambda>x. \<not> terminal x) cs))
          \<le> length (dropWhile (\<lambda>x. \<not> terminal x) cs)"
    by (rule length_dropWhile_le)
  also have "\<dots> \<le> length cs"
    by (rule length_dropWhile_le)
  finally show "((U, Some (last (c # takeWhile (\<lambda>x. \<not> terminal x) cs
                   @ takeWhile terminal (dropWhile (\<lambda>x. \<not> terminal x) cs))),
                 dropWhile terminal (dropWhile (\<lambda>x. \<not> terminal x) cs)),
                (U, prev, c # cs)) \<in> measure (\<lambda>(U, prev, s). length s)"
    by simp
next
  fix U :: unicode_tables and prev :: "nat option" and c :: nat and cs :: ustring
  show "((U, Some c, cs), (U, prev, c # cs)) \<in> measure (\<lambda>(U, prev, s). length s)"
    by simp
qed

text \<open>The \<open>for\<close> loop of \<open>count_sentences\<close> over the matches, with its counter.\<close>

fun ignore_loop :: "unicode_tables \<Rightarrow> bool \<Rightarrow> ustring list \<Rightarrow> int \<Rightarrow> int" where
  "ignore_loop U ra [] ignore_count = ignore_count"
| "ignore_loop U ra (sentence # rest) ignore_count =
     ignore_loop U ra rest
       (if count_words U ra sentence True \<le> 2 then ignore_count + 1 else ignore_count)"

definition count_sentences :: "unicode_tables \<Rightarrow> bool \<Rightarrow> ustring \<Rightarrow> int" where
  "count_sentences U ra s =
     (let sentences = findall_sentences U None s;
          ignore_count = ignore_loop U ra sentences 0
      in max 1 (int (length sentences) - ignore_count))"

section \<open>Arabic counters\<close>

text \<open>
  The list \<open>tashkeel\<close> of \<open>count_arabic_syllables\<close> is written with raw string
  literals (the prefix \<open>r\<close> before the escapes of U+064E, U+064F and U+0650), so each
  element is a string of six characters: backslash, u, 0, 6, 4, E (then 0, 6, 4, F and
  0, 6, 5, 0). The long vowels are ordinary literals for U+0627, U+0648 and U+064A: one
  code point each.
\<close>

definition tashkeel :: "ustring list" where
  "tashkeel = [[92, 117, 48, 54, 52, 69], [92, 117, 48, 54, 52, 70], [92, 117, 48, 54, 53, 48]]"

definition long_vowels :: "ustring list" where
  "long_vowels = [[0x627], [0x648], [0x64A]]"


text \<open>
  \<open>[c for w in remove_punctuation(text, rm_apostrophe=True).split() for c in w]\<close>:
  the characters of the words, each a string of length one.
\<close>

definition char_list :: "unicode_tables \<Rightarrow> ustring \<Rightarrow> ustring list" where
  "char_list U s = concat (map (map (\<lambda>c. [c])) (str_split (remove_punctuation U s True)))"

text \<open>
  The inner loop \<open>for i, c in enumerate(char_list)\<close> for one \<open>t\<close>; the state is
  \<open>(short_count, long_count)\<close>. \<open>i + 1 < len(char_list) and char_list[i + 1] in [...]\<close>
  reads the next element of the list where there is one.
\<close>

fun scan_chars :: "ustring \<Rightarrow> ustring list \<Rightarrow> int \<times> int \<Rightarrow> int \<times> int" where
  "scan_chars t [] (short_count, long_count) = (short_count, long_count)"
| "scan_chars t (c # cs) (short_count, long_count) =
     (if c \<noteq> t then scan_chars t cs (short_count, long_count)
      else if (case cs of [] \<Rightarrow> False | n # _ \<Rightarrow> n \<in> set long_vowels)
      then scan_chars t cs (short_count, long_count + 1)
      else scan_chars t cs (short_count + 1, long_count))"

text \<open>The outer loop \<open>for t in tashkeel\<close>.\<close>

fun scan_tashkeel :: "ustring list \<Rightarrow> ustring list \<Rightarrow> int \<times> int \<Rightarrow> int \<times> int" where
  "scan_tashkeel [] cl counts = counts"
| "scan_tashkeel (t # ts) cl counts = scan_tashkeel ts cl (scan_chars t cl counts)"

text \<open>
  \<open>len(stress_pattern.findall(text))\<close> for the class of U+064B, U+064C, U+064D and
  U+0651: the regular expression engine reads the escapes of a raw pattern itself, so the
  class holds the four code points.
\<close>

definition stress_count :: "ustring \<Rightarrow> int" where
  "stress_count s = int (length (filter (\<lambda>c. c \<in> set [0x64B, 0x64C, 0x64D, 0x651]) s))"

text \<open>
  The substitution of the fallback deletes the class of U+0627, U+0649, the marks
  \<open>? . ! ,\<close>, whitespace and the asterisk.
\<close>

definition fallback_strip :: "ustring \<Rightarrow> ustring" where
  "fallback_strip s =
     filter (\<lambda>c. \<not> (c = 0x627 \<or> c = 0x649 \<or> c = 63 \<or> c = 46 \<or> c = 33 \<or> c = 44
                    \<or> isspace c \<or> c = 42)) s"

text \<open>Both loops, from \<open>short_count = 0\<close> and \<open>long_count = 0\<close>.\<close>

definition arabic_scan :: "unicode_tables \<Rightarrow> ustring \<Rightarrow> int \<times> int" where
  "arabic_scan U s = scan_tashkeel tashkeel (char_list U s) (0, 0)"


definition count_arabic_syllables :: "unicode_tables \<Rightarrow> ustring \<Rightarrow> int" where
  "count_arabic_syllables U s =
     (case arabic_scan U s of
        (short_count, long_count) \<Rightarrow>
          (let short_count' =
                 (if short_count = 0 then int (length (fallback_strip s)) - 2 else short_count)
           in short_count' + 2 * (long_count + stress_count s)))"

text \<open>
  \<open>count_arabic_long_words\<close>: the alternation of eleven code points is deleted, then the
  punctuation; the loop counts the words of more than five characters.
\<close>

definition long_words_tashkeel :: "nat list" where
  "long_words_tashkeel =
     [0x64E, 0x64B, 0x64F, 0x64C, 0x650, 0x64D, 0x651, 0x652, 0x653, 0x657, 0x658]"

fun long_words_loop :: "ustring list \<Rightarrow> int \<Rightarrow> int" where
  "long_words_loop [] n = n"
| "long_words_loop (t # ts) n = long_words_loop ts (if length t > 5 then n + 1 else n)"

definition count_arabic_long_words :: "unicode_tables \<Rightarrow> ustring \<Rightarrow> int" where
  "count_arabic_long_words U s =
     long_words_loop
       (str_split
          (remove_punctuation U (filter (\<lambda>c. c \<notin> set long_words_tashkeel) s) True)) 0"

section \<open>Collaborators that are not among the source files\<close>

text \<open>
  The selection utilities, the hyphenation-based syllable counters, six of the eight
  formulas of the consensus and the ordinal-suffix formatter are called by the code under
  study but are not among the source files. They are parameters of the model.
\<close>

record collaborators =
  list_words :: "ustring \<Rightarrow> ustring list"
  count_syllables :: "ustring \<Rightarrow> string \<Rightarrow> int"
  count_polysyllable_words :: "ustring \<Rightarrow> string \<Rightarrow> int"
  flesch_kincaid_grade :: "ustring \<Rightarrow> string \<Rightarrow> real"
  flesch_reading_ease :: "ustring \<Rightarrow> string \<Rightarrow> real"
  coleman_liau_index :: "ustring \<Rightarrow> real"
  dale_chall_readability_score :: "ustring \<Rightarrow> string \<Rightarrow> real"
  linsear_write_formula :: "ustring \<Rightarrow> string \<Rightarrow> real"
  gunning_fog :: "ustring \<Rightarrow> string \<Rightarrow> real"
  get_grade_suffix :: "int \<Rightarrow> string"

text \<open>\<open>len([w for w in list_words(text) if count_syllables(w, lang) == 1])\<close>\<close>

definition count_monosyllable_words :: "collaborators \<Rightarrow> ustring \<Rightarrow> string \<Rightarrow> int" where
  "count_monosyllable_words K s lang =
     int (length (filter (\<lambda>w. count_syllables K w lang = 1) (list_words K s)))"

section \<open>Formula library\<close>

text \<open>
  Python numbers: \<open>int\<close> is unbounded, \<open>float\<close> is modelled by the real it denotes.
  The true division \<open>a / b\<close> of two integers raises \<open>ZeroDivisionError\<close> when \<open>b\<close> is
  zero; an indexing \<open>xs[0]\<close> of an empty list raises \<open>IndexError\<close>.
\<close>

datatype py_error = ZeroDivisionError | IndexError

datatype pynum = PyInt int | PyFloat real

definition py_truediv :: "int \<Rightarrow> int \<Rightarrow> py_error + real" where
  "py_truediv a b = (if b = 0 then Inl ZeroDivisionError else Inr (real_of_int a / real_of_int b))"

text \<open>\<open>chars_per_word\<close>: the handler returns the character count itself, an \<open>int\<close>.\<close>

definition chars_per_word :: "unicode_tables \<Rightarrow> bool \<Rightarrow> ustring \<Rightarrow> bool \<Rightarrow> pynum" where
  "chars_per_word U ra s ignore_spaces =
     (case py_truediv (count_chars s ignore_spaces) (count_words U ra s True) of
        Inr q \<Rightarrow> PyFloat q
      | Inl ZeroDivisionError \<Rightarrow> PyInt (count_chars s ignore_spaces)
      | Inl IndexError \<Rightarrow> PyInt (count_chars s ignore_spaces))"

definition automated_readability_index :: "unicode_tables \<Rightarrow> bool \<Rightarrow> ustring \<Rightarrow> real" where
  "automated_readability_index U ra s =
     (let chrs = count_chars s True;
          words = count_words U ra s True;
          sentences = count_sentences U ra s
      in case py_truediv chrs words of
           Inl _ \<Rightarrow> 0
         | Inr a \<Rightarrow>
             (case py_truediv words sentences of
                Inl _ \<Rightarrow> 0
              | Inr b \<Rightarrow> (4.71 * a) + (0.5 * b) - 21.43))"

definition smog_index :: "unicode_tables \<Rightarrow> bool \<Rightarrow> collaborators \<Rightarrow> ustring \<Rightarrow> string \<Rightarrow> real" where
  "smog_index U ra K s lang =
     (let sentences = count_sentences U ra s
      in if sentences < 3 then 0
         else (let poly_syllab = count_polysyllable_words K s lang
               in case py_truediv poly_syllab sentences of
                    Inl _ \<Rightarrow> 0
                  | Inr q \<Rightarrow> (1.043 * (30 * q) powr 0.5) + 3.1291))"

section \<open>Consensus engine\<close>

text \<open>\<open>int(math.floor(x))\<close> and \<open>int(math.ceil(x))\<close>, appended in this order.\<close>

definition floor_ceil_votes :: "real \<Rightarrow> int list" where
  "floor_ceil_votes x = [\<lfloor>x\<rfloor>, \<lceil>x\<rceil>]"

text \<open>The \<open>if\<close>/\<open>elif\<close> chain over the Flesch Reading Ease score.\<close>

definition reading_ease_votes :: "real \<Rightarrow> int list" where
  "reading_ease_votes score =
     (if score < 100 \<and> score \<ge> 90 then [5]
      else if score < 90 \<and> score \<ge> 80 then [6]
      else if score < 80 \<and> score \<ge> 70 then [7]
      else if score < 70 \<and> score \<ge> 60 then [8, 9]
      else if score < 60 \<and> score \<ge> 50 then [10]
      else if score < 50 \<and> score \<ge> 40 then [11]
      else if score < 40 \<and> score \<ge> 30 then [12]
      else [13])"

text \<open>The list \<open>grade\<close> of \<open>text_standard\<close> when the tally starts.\<close>

definition grade_votes ::
  "unicode_tables \<Rightarrow> bool \<Rightarrow> collaborators \<Rightarrow> ustring \<Rightarrow> string \<Rightarrow> int list" where
  "grade_votes U ra K s lang =
     floor_ceil_votes (flesch_kincaid_grade K s lang)
     @ reading_ease_votes (flesch_reading_ease K s lang)
     @ floor_ceil_votes (smog_index U ra K s lang)
     @ floor_ceil_votes (coleman_liau_index K s)
     @ floor_ceil_votes (automated_readability_index U ra s)
     @ floor_ceil_votes (dale_chall_readability_score K s lang)
     @ floor_ceil_votes (linsear_write_formula K s lang)
     @ floor_ceil_votes (gunning_fog K s lang)"

text \<open>
  \<open>Counter(grade)\<close> is a dictionary, and a dictionary keeps its keys in the order of their
  first insertion: an association list in that order. Counting an element that is already
  a key changes its count and leaves its place.
\<close>

fun counter_incr :: "int \<Rightarrow> (int \<times> nat) list \<Rightarrow> (int \<times> nat) list" where
  "counter_incr v [] = [(v, 1)]"
| "counter_incr v ((k, n) # d) = (if k = v then (k, n + 1) # d else (k, n) # counter_incr v d)"

definition Counter :: "int list \<Rightarrow> (int \<times> nat) list" where
  "Counter grade = foldl (\<lambda>d v. counter_incr v d) [] grade"

text \<open>
  \<open>most_common(1)\<close> is \<open>max\<close> over the items with the count as key: \<open>max\<close> keeps the
  first of the items it has seen and replaces it only by an item with a strictly greater
  key. The result is a list of one item, or the empty list for an empty counter.
\<close>

fun first_max :: "int \<times> nat \<Rightarrow> (int \<times> nat) list \<Rightarrow> int \<times> nat" where
  "first_max best [] = best"
| "first_max best (x # xs) = (if snd x > snd best then first_max x xs else first_max best xs)"

definition most_common1 :: "(int \<times> nat) list \<Rightarrow> (int \<times> nat) list" where
  "most_common1 d = (case d of [] \<Rightarrow> [] | x # xs \<Rightarrow> [first_max x xs])"

definition text_standard ::
  "unicode_tables \<Rightarrow> bool \<Rightarrow> collaborators \<Rightarrow> ustring \<Rightarrow> string \<Rightarrow> py_error + real" where
  "text_standard U ra K s lang =
     (let d = Counter (grade_votes U ra K s lang);
          final_grade = most_common1 d
      in case final_grade of
           [] \<Rightarrow> Inl IndexError
         | (g, _) # _ \<Rightarrow> Inr (real_of_int g))"

section \<open>The public wrapper\<close>

text \<open>The attributes of an instance of the class \<open>textstatistics\<close>.\<close>

record textstatistics =
  lang_attr :: string
  round_points :: "int option"
  rm_apostrophe_attr :: bool

text \<open>
  The builtin \<open>round(number, ndigits)\<close> on the real a float denotes: to the nearest
  multiple of the power of ten, a tie to the even one.
\<close>

definition round_half_even :: "real \<Rightarrow> int" where
  "round_half_even x =
     (if x - real_of_int \<lfloor>x\<rfloor> < 1 / 2 then \<lfloor>x\<rfloor>
      else if x - real_of_int \<lfloor>x\<rfloor> > 1 / 2 then \<lfloor>x\<rfloor> + 1
      else if even \<lfloor>x\<rfloor> then \<lfloor>x\<rfloor> else \<lfloor>x\<rfloor> + 1)"

definition py_round :: "real \<Rightarrow> int \<Rightarrow> real" where
  "py_round x ndigits =
     (if ndigits \<ge> 0
      then real_of_int (round_half_even (x * 10 ^ nat ndigits)) / 10 ^ nat ndigits
      else real_of_int (round_half_even (x / 10 ^ nat (- ndigits))) * 10 ^ nat (- ndigits))"

definition legacy_round :: "textstatistics \<Rightarrow> real \<Rightarrow> real" where
  "legacy_round T number =
     (case round_points T of None \<Rightarrow> number | Some points \<Rightarrow> py_round number points)"

text \<open>\<open>int(x)\<close> of a float truncates towards zero; \<open>str\<close> of an integer is decimal.\<close>

definition py_int :: "real \<Rightarrow> int" where
  "py_int x = (if x \<ge> 0 then \<lfloor>x\<rfloor> else \<lceil>x\<rceil>)"

fun str_nat :: "nat \<Rightarrow> string" where
  "str_nat n =
     (if n < 10 then [''0123456789'' ! n]
      else str_nat (n div 10) @ [''0123456789'' ! (n mod 10)])"

definition str_int :: "int \<Rightarrow> string" where
  "str_int i = (if i < 0 then CHR ''-'' # str_nat (nat (- i)) else str_nat (nat i))"

datatype standard_output = FloatOut real | StrOut string

definition textstatistics_text_standard ::
  "textstatistics \<Rightarrow> unicode_tables \<Rightarrow> bool \<Rightarrow> collaborators \<Rightarrow> ustring \<Rightarrow> bool
     \<Rightarrow> py_error + standard_output" where
  "textstatistics_text_standard T U ra K s float_output =
     (case text_standard U ra K s (lang_attr T) of
        Inl e \<Rightarrow> Inl e
      | Inr standard_value \<Rightarrow>
          (if float_output then Inr (FloatOut (legacy_round T standard_value))
           else (let lower_score = py_int standard_value - 1;
                     upper_score = lower_score + 1
                 in Inr (StrOut (str_int lower_score @ get_grade_suffix K lower_score
                                 @ '' and ''
                                 @ str_int upper_score @ get_grade_suffix K upper_score
                                 @ '' grade'')))))"

section \<open>Concrete instances of the parameters\<close>

text \<open>
  Tables for texts over ASCII and the Arabic block: the letters U+0621..U+064A and the
  digits U+0660..U+0669 (the marks U+064B..U+065F are neither). Statements that are
  evaluated at a concrete text use these tables.
\<close>

definition arabic_tables :: unicode_tables where
  "arabic_tables =
     \<lparr>alpha_tab = (\<lambda>c. 0x621 \<le> c \<and> c \<le> 0x64A), digit_tab = (\<lambda>c. 0x660 \<le> c \<and> c \<le> 0x669)\<rparr>"

text \<open>
  An ordinal-suffix formatter (\<open>th\<close> for 11, 12 and 13 in the last two digits, else
  \<open>st\<close>, \<open>nd\<close>, \<open>rd\<close> by the last digit, else \<open>th\<close>) and collaborators that score every
  text 0, for the evaluation of the wrapper at a concrete text.
\<close>

definition ordinal_suffix :: "int \<Rightarrow> string" where
  "ordinal_suffix n =
     (if n mod 100 = 11 \<or> n mod 100 = 12 \<or> n mod 100 = 13 then ''th''
      else if n mod 10 = 1 then ''st''
      else if n mod 10 = 2 then ''nd''
      else if n mod 10 = 3 then ''rd''
      else ''th'')"

definition sample_collaborators :: collaborators where
  "sample_collaborators =
     \<lparr>list_words = (\<lambda>s. str_split (remove_punctuation arabic_tables s True)),
      count_syllables = (\<lambda>w lang. 1),
      count_polysyllable_words = (\<lambda>s lang. 0),
      flesch_kincaid_grade = (\<lambda>s lang. 0),
      flesch_reading_ease = (\<lambda>s lang. 0),
      coleman_liau_index = (\<lambda>s. 0),
      dale_chall_readability_score = (\<lambda>s lang. 0),
      linsear_write_formula = (\<lambda>s lang. 0),
      gunning_fog = (\<lambda>s lang. 0),
      get_grade_suffix = ordinal_suffix\<rparr>"

text \<open>
  Collaborators whose scores give a tie at the empty text: the votes are 6, 6 (Flesch-
  Kincaid), 5 (reading ease 95), 0, 0 (SMOG), -3, -3 (Coleman-Liau), 0, 0 (ARI), 13, 13
  (Dale-Chall), 13, 13 (Linsear Write), -3, -3 (Gunning Fog), so that 0, -3 and 13 have
  four votes each.
\<close>

definition tie_collaborators :: collaborators where
  "tie_collaborators =
     \<lparr>list_words = (\<lambda>s. str_split (remove_punctuation arabic_tables s True)),
      count_syllables = (\<lambda>w lang. 1),
      count_polysyllable_words = (\<lambda>s lang. 0),
      flesch_kincaid_grade = (\<lambda>s lang. 6),
      flesch_reading_ease = (\<lambda>s lang. 95),
      coleman_liau_index = (\<lambda>s. - 3),
      dale_chall_readability_score = (\<lambda>s lang. 13),
      linsear_write_formula = (\<lambda>s lang. 13),
      gunning_fog = (\<lambda>s lang. - 3),
      get_grade_suffix = ordinal_suffix\<rparr>"

definition default_instance :: textstatistics where
  "default_instance = \<lparr>lang_attr = ''en_US'', round_points = None, rm_apostrophe_attr = True\<rparr>"

section \<open>The scan of the Arabic syllable counter\<close>

lemma scan_chars_no_match:
  "\<forall>c\<in>set cl. c \<noteq> t \<Longrightarrow> scan_chars t cl counts = counts"
  by (induction t cl counts rule: scan_chars.induct) auto

lemma char_list_singletons: "c \<in> set (char_list U s) \<Longrightarrow> length c = 1"
  by (auto simp: char_list_def)

text \<open>
  An element of \<open>char_list\<close> has one character and an element of \<open>tashkeel\<close> has six,
  so the comparison \<open>c != t\<close> never fails and neither counter moves.
\<close>

lemma arabic_scan_zero: "arabic_scan U s = (0, 0)"
proof -
  have "scan_chars t (char_list U s) counts = counts" if "length t = 6" for t counts
    using that by (intro scan_chars_no_match) (auto dest: char_list_singletons)
  then show ?thesis
    by (simp add: arabic_scan_def tashkeel_def)
qed

lemma count_arabic_syllables_eq:
  "count_arabic_syllables U s = int (length (fallback_strip s)) - 2 + 2 * stress_count s"
  by (simp add: count_arabic_syllables_def arabic_scan_zero)

text \<open>
  C8: for the text of U+0641 (feh), U+064E (fatha), U+0627 (alef) the claim expects one
  long syllable of weight 2 and the total 2. The code returns 0: the scan finds no
  diacritic, the fallback deletes the alef, two characters remain, and 2 - 2 = 0.
\<close>

theorem count_arabic_syllables_feh_fatha_alef:
  "count_arabic_syllables U [0x641, 0x64E, 0x627] = 0
   \<and> count_arabic_syllables U [0x641, 0x64E, 0x627] \<noteq> 2"
  by (simp add: count_arabic_syllables_eq fallback_strip_def stress_count_def isspace_def)









section \<open>The empty text\<close>

lemma count_words_empty: "count_words U ra [] True = 0"
  by (simp add: count_words_def remove_punctuation_def str_split_def)

lemma count_sentences_empty: "count_sentences U ra [] = 1"
  by (simp add: count_sentences_def)

lemma automated_readability_index_empty: "automated_readability_index U ra [] = 0"
  by (simp add: automated_readability_index_def count_words_empty py_truediv_def)

lemma smog_index_empty: "smog_index U ra K [] lang = 0"
  by (simp add: smog_index_def count_sentences_empty)

lemma grade_votes_tie:
  "grade_votes U ra tie_collaborators [] lang
     = [6, 6, 5, 0, 0, - 3, - 3, 0, 0, 13, 13, 13, 13, - 3, - 3]"
  by (simp add: grade_votes_def floor_ceil_votes_def reading_ease_votes_def tie_collaborators_def
      automated_readability_index_empty smog_index_empty)

section \<open>The reading-ease buckets\<close>

text \<open>
  C3: the list of votes that \<open>text_standard\<close> tallies is made of the two votes of the
  Flesch-Kincaid grade, then the votes \<open>b\<close> of the Flesch Reading Ease score \<open>r\<close>, then the
  two votes of each of the other six formulas; and \<open>b\<close> is 5 for \<open>r\<close> in [90, 100), 6 in
  [80, 90), 7 in [70, 80), 8 and 9 in [60, 70), 10 in [50, 60), 11 in [40, 50), 12 in
  [30, 40) and 13 for every other value; exactly one of the eight cases applies to a
  score.
\<close>

theorem text_standard_reading_ease_votes:
  "\<exists>b. grade_votes U ra K s lang
          = floor_ceil_votes (flesch_kincaid_grade K s lang) @ b
            @ floor_ceil_votes (smog_index U ra K s lang)
            @ floor_ceil_votes (coleman_liau_index K s)
            @ floor_ceil_votes (automated_readability_index U ra s)
            @ floor_ceil_votes (dale_chall_readability_score K s lang)
            @ floor_ceil_votes (linsear_write_formula K s lang)
            @ floor_ceil_votes (gunning_fog K s lang)
     \<and> text_standard U ra K s lang
          = (case most_common1 (Counter (grade_votes U ra K s lang)) of
               [] \<Rightarrow> Inl IndexError
             | (g, n) # rest \<Rightarrow> Inr (real_of_int g))
     \<and> (90 \<le> flesch_reading_ease K s lang \<and> flesch_reading_ease K s lang < 100 \<longrightarrow> b = [5])
     \<and> (80 \<le> flesch_reading_ease K s lang \<and> flesch_reading_ease K s lang < 90 \<longrightarrow> b = [6])
     \<and> (70 \<le> flesch_reading_ease K s lang \<and> flesch_reading_ease K s lang < 80 \<longrightarrow> b = [7])
     \<and> (60 \<le> flesch_reading_ease K s lang \<and> flesch_reading_ease K s lang < 70 \<longrightarrow> b = [8, 9])
     \<and> (50 \<le> flesch_reading_ease K s lang \<and> flesch_reading_ease K s lang < 60 \<longrightarrow> b = [10])
     \<and> (40 \<le> flesch_reading_ease K s lang \<and> flesch_reading_ease K s lang < 50 \<longrightarrow> b = [11])
     \<and> (30 \<le> flesch_reading_ease K s lang \<and> flesch_reading_ease K s lang < 40 \<longrightarrow> b = [12])
     \<and> (flesch_reading_ease K s lang < 30 \<or> 100 \<le> flesch_reading_ease K s lang \<longrightarrow> b = [13])
     \<and> length (filter id
          [90 \<le> flesch_reading_ease K s lang \<and> flesch_reading_ease K s lang < 100,
           80 \<le> flesch_reading_ease K s lang \<and> flesch_reading_ease K s lang < 90,
           70 \<le> flesch_reading_ease K s lang \<and> flesch_reading_ease K s lang < 80,
           60 \<le> flesch_reading_ease K s lang \<and> flesch_reading_ease K s lang < 70,
           50 \<le> flesch_reading_ease K s lang \<and> flesch_reading_ease K s lang < 60,
           40 \<le> flesch_reading_ease K s lang \<and> flesch_reading_ease K s lang < 50,
           30 \<le> flesch_reading_ease K s lang \<and> flesch_reading_ease K s lang < 40,
           flesch_reading_ease K s lang < 30 \<or> 100 \<le> flesch_reading_ease K s lang]) = 1"
proof -
  define r where "r = flesch_reading_ease K s lang"
  have table: "(90 \<le> r \<and> r < 100 \<longrightarrow> reading_ease_votes r = [5])
     \<and> (80 \<le> r \<and> r < 90 \<longrightarrow> reading_ease_votes r = [6])
     \<and> (70 \<le> r \<and> r < 80 \<longrightarrow> reading_ease_votes r = [7])
     \<and> (60 \<le> r \<and> r < 70 \<longrightarrow> reading_ease_votes r = [8, 9])
     \<and> (50 \<le> r \<and> r < 60 \<longrightarrow> reading_ease_votes r = [10])
     \<and> (40 \<le> r \<and> r < 50 \<longrightarrow> reading_ease_votes r = [11])
     \<and> (30 \<le> r \<and> r < 40 \<longrightarrow> reading_ease_votes r = [12])
     \<and> (r < 30 \<or> 100 \<le> r \<longrightarrow> reading_ease_votes r = [13])
     \<and> length (filter id [90 \<le> r \<and> r < 100, 80 \<le> r \<and> r < 90, 70 \<le> r \<and> r < 80,
           60 \<le> r \<and> r < 70, 50 \<le> r \<and> r < 60, 40 \<le> r \<and> r < 50, 30 \<le> r \<and> r < 40,
           r < 30 \<or> 100 \<le> r]) = 1"
    by (auto simp: reading_ease_votes_def)
  have votes: "grade_votes U ra K s lang
          = floor_ceil_votes (flesch_kincaid_grade K s lang) @ reading_ease_votes r
            @ floor_ceil_votes (smog_index U ra K s lang)
            @ floor_ceil_votes (coleman_liau_index K s)
            @ floor_ceil_votes (automated_readability_index U ra s)
            @ floor_ceil_votes (dale_chall_readability_score K s lang)
            @ floor_ceil_votes (linsear_write_formula K s lang)
            @ floor_ceil_votes (gunning_fog K s lang)"
    by (simp add: grade_votes_def r_def)
  have tally: "text_standard U ra K s lang
          = (case most_common1 (Counter (grade_votes U ra K s lang)) of
               [] \<Rightarrow> Inl IndexError
             | (g, n) # rest \<Rightarrow> Inr (real_of_int g))"
    by (simp add: text_standard_def Let_def split: list.splits)
  show ?thesis
    unfolding r_def [symmetric]
    by (rule exI [of _ "reading_ease_votes r"]) (intro conjI votes tally table [THEN conjunct1]
        table [THEN conjunct2, THEN conjunct1]
        table [THEN conjunct2, THEN conjunct2, THEN conjunct1]
        table [THEN conjunct2, THEN conjunct2, THEN conjunct2, THEN conjunct1]
        table [THEN conjunct2, THEN conjunct2, THEN conjunct2, THEN conjunct2, THEN conjunct1]
        table [THEN conjunct2, THEN conjunct2, THEN conjunct2, THEN conjunct2, THEN conjunct2,
          THEN conjunct1]
        table [THEN conjunct2, THEN conjunct2, THEN conjunct2, THEN conjunct2, THEN conjunct2,
          THEN conjunct2, THEN conjunct1]
        table [THEN conjunct2, THEN conjunct2, THEN conjunct2, THEN conjunct2, THEN conjunct2,
          THEN conjunct2, THEN conjunct2, THEN conjunct1]
        table [THEN conjunct2, THEN conjunct2, THEN conjunct2, THEN conjunct2, THEN conjunct2,
          THEN conjunct2, THEN conjunct2, THEN conjunct2])
qed

theorem text_standard_reading_ease_votes_witness:
  "(90 :: real) \<le> flesch_reading_ease tie_collaborators [] ''en_US''
   \<and> flesch_reading_ease tie_collaborators [] ''en_US'' < 100
   \<and> grade_votes arabic_tables True tie_collaborators [] ''en_US''
       = [6, 6] @ [5] @ [0, 0, - 3, - 3, 0, 0, 13, 13, 13, 13, - 3, - 3]"
proof -
  have r: "flesch_reading_ease tie_collaborators [] ''en_US'' = 95"
    by (simp add: tie_collaborators_def)
  from text_standard_reading_ease_votes [of arabic_tables True tie_collaborators "[]" "''en_US''"]
  obtain b where
    "grade_votes arabic_tables True tie_collaborators [] ''en_US''
       = floor_ceil_votes (flesch_kincaid_grade tie_collaborators [] ''en_US'') @ b
         @ floor_ceil_votes (smog_index arabic_tables True tie_collaborators [] ''en_US'')
         @ floor_ceil_votes (coleman_liau_index tie_collaborators [])
         @ floor_ceil_votes (automated_readability_index arabic_tables True [])
         @ floor_ceil_votes (dale_chall_readability_score tie_collaborators [] ''en_US'')
         @ floor_ceil_votes (linsear_write_formula tie_collaborators [] ''en_US'')
         @ floor_ceil_votes (gunning_fog tie_collaborators [] ''en_US'')"
    and "90 \<le> flesch_reading_ease tie_collaborators [] ''en_US''
         \<and> flesch_reading_ease tie_collaborators [] ''en_US'' < 100 \<longrightarrow> b = [5]"
    by (elim exE conjE)
  then show ?thesis
    by (simp add: r floor_ceil_votes_def tie_collaborators_def
        automated_readability_index_empty smog_index_empty)
qed

section \<open>Words of a text and of its pieces\<close>

lemma split_ws_Nil_iff: "split_ws cur s = [] \<longleftrightarrow> cur = [] \<and> (\<forall>c\<in>set s. isspace c)"
  by (induction cur s rule: split_ws.induct) auto

lemma count_words_zero_iff:
  "count_words U ra s True = 0 \<longleftrightarrow> (\<forall>c\<in>set (strip_punct U ra None s). isspace c)"
  by (simp add: count_words_def str_split_def split_ws_Nil_iff remove_punctuation_def)

lemma keeps_char_None: "keeps_char U ra None c cs \<Longrightarrow> keeps_char U ra p c cs"
  by (auto simp: keeps_char_def)

lemma strip_punct_prev_mono: "set (strip_punct U ra None s) \<subseteq> set (strip_punct U ra p s)"
  by (cases s) (auto dest: keeps_char_None)

lemma keeps_char_append: "keeps_char U ra p c cs \<Longrightarrow> keeps_char U ra p c (cs @ b)"
  by (cases cs) (auto simp: keeps_char_def)

lemma strip_punct_append_mono: "set (strip_punct U ra p s) \<subseteq> set (strip_punct U ra p (s @ b))"
  by (induction s arbitrary: p) (auto dest: keeps_char_append)

lemma strip_punct_prefix_mono: "set (strip_punct U ra None s) \<subseteq> set (strip_punct U ra p (a @ s))"
proof (induction a arbitrary: p)
  case Nil
  show ?case using strip_punct_prev_mono by simp
next
  case (Cons x a)
  then show ?case by (auto split: if_splits)
qed

lemma strip_punct_infix:
  "set (strip_punct U ra None t) \<subseteq> set (strip_punct U ra None (a @ t @ b))"
  using strip_punct_append_mono[of U ra None t b] strip_punct_prefix_mono[of U ra "t @ b" None a]
  by blast

text \<open>A piece of a text without words has no words.\<close>

lemma count_words_zero_infix:
  "count_words U ra (a @ t @ b) True = 0 \<Longrightarrow> count_words U ra t True = 0"
  unfolding count_words_zero_iff using strip_punct_infix[of U ra t a b] by blast

section \<open>The sentence counter\<close>

text \<open>Every match of the scan is a piece of the text.\<close>

lemma findall_sentences_infix:
  "seg \<in> set (findall_sentences U prev s) \<Longrightarrow> \<exists>a b. s = a @ seg @ b"
proof (induction U prev s rule: findall_sentences.induct)
  case (1 U prev)
  then show ?case by simp
next
  case (2 U prev c cs)
  let ?nt = "\<lambda>x. \<not> terminal x"
  let ?m = "c # takeWhile ?nt cs @ takeWhile terminal (dropWhile ?nt cs)"
  let ?r = "dropWhile terminal (dropWhile ?nt cs)"
  have whole: "c # cs = ?m @ ?r"
    by simp
  show ?case
  proof (cases "word_boundary U prev (Some c) \<and> \<not> terminal c")
    case True
    with "2.prems" have "seg = ?m \<or> seg \<in> set (findall_sentences U (Some (last ?m)) ?r)"
      by simp
    then show ?thesis
    proof
      assume "seg = ?m"
      with whole have "c # cs = [] @ seg @ ?r" by simp
      then show ?thesis by blast
    next
      assume "seg \<in> set (findall_sentences U (Some (last ?m)) ?r)"
      with "2.IH"(1) True obtain a b where "?r = a @ seg @ b" by blast
      with whole have "c # cs = (?m @ a) @ seg @ b" by simp
      then show ?thesis by blast
    qed
  next
    case False
    with "2.prems" have "seg \<in> set (findall_sentences U (Some c) cs)" by auto
    with "2.IH"(2) False obtain a b where "cs = a @ seg @ b" by blast
    then have "c # cs = (c # a) @ seg @ b" by simp
    then show ?thesis by blast
  qed
qed

lemma ignore_loop_eq:
  "ignore_loop U ra segs n
     = n + int (length (filter (\<lambda>x. count_words U ra x True \<le> 2) segs))"
  by (induction U ra segs n rule: ignore_loop.induct) auto

lemma count_sentences_eq:
  "count_sentences U ra s
     = max 1 (int (length (findall_sentences U None s))
              - int (length (filter (\<lambda>x. count_words U ra x True \<le> 2)
                               (findall_sentences U None s))))"
  by (simp add: count_sentences_def Let_def ignore_loop_eq)

lemma count_sentences_all_short:
  assumes "\<forall>x\<in>set (findall_sentences U None s). count_words U ra x True \<le> 2"
  shows "count_sentences U ra s = 1"
proof -
  from assms have "filter (\<lambda>x. count_words U ra x True \<le> 2) (findall_sentences U None s)
                    = findall_sentences U None s"
    by (simp add: filter_id_conv)
  then show ?thesis by (simp add: count_sentences_eq)
qed

lemma count_sentences_zero_words:
  assumes "count_words U ra s True = 0"
  shows "count_sentences U ra s = 1"
proof (rule count_sentences_all_short, rule ballI)
  fix x assume "x \<in> set (findall_sentences U None s)"
  then obtain a b where "s = a @ x @ b" using findall_sentences_infix by blast
  with assms have "count_words U ra x True = 0" using count_words_zero_infix by blast
  then show "count_words U ra x True \<le> 2" by simp
qed

lemma count_sentences_ge1: "1 \<le> count_sentences U ra s"
  by (simp add: count_sentences_def Let_def)

section \<open>Evaluation at concrete texts\<close>

lemma keeps_char_exclamation: "keeps_char arabic_tables ra p 33 cs = False"
  by (simp add: keeps_char_def isalpha_def isdigit_def isspace_def)

lemma count_words_exclamations: "count_words arabic_tables ra [33, 33, 33] True = 0"
  by (simp add: count_words_def remove_punctuation_def str_split_def keeps_char_exclamation)

lemma count_chars_exclamations: "count_chars [33, 33, 33] ignore_spaces = 3"
  by (simp add: count_chars_def isspace_def)

section \<open>Zero denominators in the formulas\<close>

text \<open>
  C7 as amended: for a text of zero words \<open>automated_readability_index\<close> returns 0.0 (the
  division by the word count raises and the handler returns 0.0), and so does
  \<open>smog_index\<close>, which returns 0.0 whenever the sentence count is below 3; neither
  raises: the model returns a number in every case. The third function of the package,
  \<open>chars_per_word\<close>, returns the character count, an integer, for such a text.
\<close>

theorem formulas_zero_words:
  "(count_words U ra s True = 0 \<longrightarrow>
      automated_readability_index U ra s = 0 \<and> smog_index U ra K s lang = 0
      \<and> chars_per_word U ra s ignore_spaces = PyInt (count_chars s ignore_spaces))
   \<and> (count_sentences U ra s < 3 \<longrightarrow> smog_index U ra K s lang = 0)"
  by (auto simp: automated_readability_index_def smog_index_def chars_per_word_def
      py_truediv_def Let_def count_sentences_zero_words)

theorem formulas_zero_words_witness:
  "count_words arabic_tables True [33, 33, 33] True = 0
   \<and> count_sentences arabic_tables True [33, 33, 33] < 3
   \<and> automated_readability_index arabic_tables True [33, 33, 33] = 0
   \<and> smog_index arabic_tables True sample_collaborators [33, 33, 33] ''en_US'' = 0
   \<and> chars_per_word arabic_tables True [33, 33, 33] False = PyInt 3"
  using formulas_zero_words
    [of arabic_tables True "[33, 33, 33]" sample_collaborators "''en_US''" False]
  by (simp add: count_words_exclamations count_chars_exclamations count_sentences_zero_words)

text \<open>
  C7 as stated fails for \<open>chars_per_word\<close> at the text of one question mark: the word
  count is zero and the function returns the integer 1, not 0.0.
\<close>

theorem chars_per_word_question_mark_counterexample:
  "\<not> (count_words arabic_tables True [63] True = 0
        \<longrightarrow> chars_per_word arabic_tables True [63] True = PyFloat 0)"
  by (simp add: chars_per_word_def py_truediv_def count_words_def count_chars_def
      remove_punctuation_def str_split_def keeps_char_def isalpha_def isdigit_def isspace_def)

text \<open>
  C10: for a text of zero words and a positive character count \<open>chars_per_word\<close> returns
  the character count (the integer the handler returns), not 0.0.
\<close>

theorem chars_per_word_zero_words:
  "count_words U ra s True = 0 \<Longrightarrow> 0 < count_chars s ignore_spaces \<Longrightarrow>
   chars_per_word U ra s ignore_spaces = PyInt (count_chars s ignore_spaces)
   \<and> chars_per_word U ra s ignore_spaces \<noteq> PyFloat 0
   \<and> chars_per_word U ra s ignore_spaces \<noteq> PyInt 0"
  by (simp add: chars_per_word_def py_truediv_def)

theorem chars_per_word_zero_words_witness:
  "count_words arabic_tables True [33, 33, 33] True = 0
   \<and> 0 < count_chars [33, 33, 33] True
   \<and> chars_per_word arabic_tables True [33, 33, 33] True = PyInt 3"
  using chars_per_word_zero_words [of arabic_tables True "[33, 33, 33]" True]
  by (simp add: count_words_exclamations count_chars_exclamations)

section \<open>Signs of the counters\<close>

lemma scan_chars_nonneg:
  "0 \<le> fst counts \<Longrightarrow> 0 \<le> snd counts \<Longrightarrow>
   0 \<le> fst (scan_chars t cl counts) \<and> 0 \<le> snd (scan_chars t cl counts)"
  by (induction t cl counts rule: scan_chars.induct) auto

lemma scan_tashkeel_nonneg:
  "0 \<le> fst counts \<Longrightarrow> 0 \<le> snd counts \<Longrightarrow>
   0 \<le> fst (scan_tashkeel ts cl counts) \<and> 0 \<le> snd (scan_tashkeel ts cl counts)"
  by (induction ts cl counts rule: scan_tashkeel.induct) (auto simp: scan_chars_nonneg)

lemma arabic_scan_nonneg: "0 \<le> fst (arabic_scan U s) \<and> 0 \<le> snd (arabic_scan U s)"
  by (simp add: arabic_scan_def scan_tashkeel_nonneg)

lemma stress_count_nonneg: "0 \<le> stress_count s"
  by (simp add: stress_count_def)

text \<open>
  The bound rests on the signs of the two counters of the scan and on the shape of the
  fallback alone, not on what the scan finds.
\<close>

lemma count_arabic_syllables_lower:
  "- 2 \<le> count_arabic_syllables U s
   \<and> (2 \<le> length (fallback_strip s) \<longrightarrow> 0 \<le> count_arabic_syllables U s)"
proof -
  obtain a b where ab: "arabic_scan U s = (a, b)" by (cases "arabic_scan U s")
  with arabic_scan_nonneg[of U s] have "0 \<le> a" "0 \<le> b" by simp_all
  with ab stress_count_nonneg[of s] show ?thesis
    by (auto simp: count_arabic_syllables_def Let_def)
qed

lemma long_words_loop_ge: "n \<le> long_words_loop ts n"
  by (induction ts n rule: long_words_loop.induct) (auto intro: order_trans)

text \<open>
  C4 as amended: \<open>count_sentences\<close> is at least 1; \<open>count_arabic_long_words\<close> and
  \<open>count_monosyllable_words\<close> are non-negative; \<open>count_arabic_syllables\<close> is at least -2,
  and non-negative when at least two characters are left by the strip of the fallback.
\<close>

theorem counters_lower_bounds:
  "1 \<le> count_sentences U ra s
   \<and> 0 \<le> count_arabic_long_words U s
   \<and> 0 \<le> count_monosyllable_words K s lang
   \<and> - 2 \<le> count_arabic_syllables U s
   \<and> (2 \<le> length (fallback_strip s) \<longrightarrow> 0 \<le> count_arabic_syllables U s)"
  using count_arabic_syllables_lower[of U s] long_words_loop_ge[of 0]
  by (simp add: count_sentences_ge1 count_arabic_long_words_def count_monosyllable_words_def)

theorem counters_lower_bounds_witness:
  "1 \<le> count_sentences arabic_tables True [0x641, 0x644]
   \<and> 0 \<le> count_arabic_long_words arabic_tables [0x641, 0x644]
   \<and> 0 \<le> count_monosyllable_words sample_collaborators [0x641, 0x644] ''ar''
   \<and> 2 \<le> length (fallback_strip [0x641, 0x644])
   \<and> 0 \<le> count_arabic_syllables arabic_tables [0x641, 0x644]"
  using counters_lower_bounds [of arabic_tables True "[0x641, 0x644]" sample_collaborators "''ar''"]
  by (simp add: fallback_strip_def isspace_def)

text \<open>
  C4 as stated fails at the empty text: nothing is left by the strip, and
  \<open>count_arabic_syllables\<close> returns 0 - 2.
\<close>

theorem count_arabic_syllables_empty_counterexample:
  "\<not> 0 \<le> count_arabic_syllables arabic_tables []"
  by (simp add: count_arabic_syllables_def arabic_scan_def char_list_def remove_punctuation_def
      str_split_def tashkeel_def fallback_strip_def stress_count_def)

section \<open>The structure of the sentence count\<close>

text \<open>The second equation of the scan when a match starts at the first character.\<close>

lemma findall_sentences_match:
  "word_boundary U prev (Some c) \<Longrightarrow> \<not> terminal c \<Longrightarrow>
   findall_sentences U prev (c # cs)
     = (c # takeWhile (\<lambda>x. \<not> terminal x) cs
          @ takeWhile terminal (dropWhile (\<lambda>x. \<not> terminal x) cs))
       # findall_sentences U
           (Some (last (c # takeWhile (\<lambda>x. \<not> terminal x) cs
                          @ takeWhile terminal (dropWhile (\<lambda>x. \<not> terminal x) cs))))
           (dropWhile terminal (dropWhile (\<lambda>x. \<not> terminal x) cs))"
  by simp

lemma takeWhile_terminal_Nil:
  "takeWhile terminal (dropWhile (\<lambda>x. \<not> terminal x) cs) = [] \<Longrightarrow>
   dropWhile (\<lambda>x. \<not> terminal x) cs = []"
proof (rule ccontr)
  assume e: "takeWhile terminal (dropWhile (\<lambda>x. \<not> terminal x) cs) = []"
    and n: "dropWhile (\<lambda>x. \<not> terminal x) cs \<noteq> []"
  from n have "terminal (hd (dropWhile (\<lambda>x. \<not> terminal x) cs))"
    using hd_dropWhile[of "\<lambda>x. \<not> terminal x" cs] by simp
  with n e show False
    by (cases "dropWhile (\<lambda>x. \<not> terminal x) cs") simp_all
qed

text \<open>
  The shape of a match: where it lies in the text, its two runs, and what follows it.
\<close>

lemma greedy_matchI:
  "s = a @ seg @ b \<Longrightarrow> seg = body @ marks \<Longrightarrow> body \<noteq> [] \<Longrightarrow>
   \<forall>c\<in>set body. \<not> terminal c \<Longrightarrow> \<forall>c\<in>set marks. terminal c \<Longrightarrow>
   (marks = [] \<longrightarrow> b = []) \<Longrightarrow> (b \<noteq> [] \<longrightarrow> \<not> terminal (hd b)) \<Longrightarrow>
   \<exists>a body marks b. s = a @ seg @ b \<and> seg = body @ marks
      \<and> body \<noteq> [] \<and> (\<forall>c\<in>set body. \<not> terminal c) \<and> (\<forall>c\<in>set marks. terminal c)
      \<and> (marks = [] \<longrightarrow> b = []) \<and> (b \<noteq> [] \<longrightarrow> \<not> terminal (hd b))"
  by (intro exI conjI)

lemma greedy_match_shift:
  assumes "\<exists>a body marks b. r = a @ seg @ b \<and> seg = body @ marks
      \<and> body \<noteq> [] \<and> (\<forall>c\<in>set body. \<not> terminal c) \<and> (\<forall>c\<in>set marks. terminal c)
      \<and> (marks = [] \<longrightarrow> b = []) \<and> (b \<noteq> [] \<longrightarrow> \<not> terminal (hd b))"
  shows "\<exists>a body marks b. m @ r = a @ seg @ b \<and> seg = body @ marks
      \<and> body \<noteq> [] \<and> (\<forall>c\<in>set body. \<not> terminal c) \<and> (\<forall>c\<in>set marks. terminal c)
      \<and> (marks = [] \<longrightarrow> b = []) \<and> (b \<noteq> [] \<longrightarrow> \<not> terminal (hd b))"
proof -
  from assms obtain a body marks b where
    r: "r = a @ seg @ b" and
    rest: "seg = body @ marks" "body \<noteq> []" "\<forall>c\<in>set body. \<not> terminal c"
      "\<forall>c\<in>set marks. terminal c" "marks = [] \<longrightarrow> b = []"
      "b \<noteq> [] \<longrightarrow> \<not> terminal (hd b)"
    by (elim exE conjE)
  from r have "m @ r = (m @ a) @ seg @ b" by simp
  then show ?thesis using rest by (rule greedy_matchI)
qed

lemma findall_sentences_greedy:
  "seg \<in> set (findall_sentences U prev s) \<Longrightarrow>
   \<exists>a body marks b. s = a @ seg @ b \<and> seg = body @ marks
      \<and> body \<noteq> [] \<and> (\<forall>c\<in>set body. \<not> terminal c) \<and> (\<forall>c\<in>set marks. terminal c)
      \<and> (marks = [] \<longrightarrow> b = []) \<and> (b \<noteq> [] \<longrightarrow> \<not> terminal (hd b))"
proof (induction U prev s rule: findall_sentences.induct)
  case (1 U prev)
  then show ?case by simp
next
  case (2 U prev c cs)
  let ?nt = "\<lambda>x. \<not> terminal x"
  let ?body = "c # takeWhile ?nt cs"
  let ?marks = "takeWhile terminal (dropWhile ?nt cs)"
  let ?m = "c # takeWhile ?nt cs @ ?marks"
  let ?r = "dropWhile terminal (dropWhile ?nt cs)"
  have whole: "c # cs = ?m @ ?r"
    by simp
  show ?case
  proof (cases "word_boundary U prev (Some c) \<and> \<not> terminal c")
    case True
    with "2.prems" have "seg = ?m \<or> seg \<in> set (findall_sentences U (Some (last ?m)) ?r)"
      by simp
    then show ?thesis
    proof
      assume "seg = ?m"
      then have seg: "seg = ?body @ ?marks"
        by simp
      have b0: "?body \<noteq> []"
        by simp
      have b1: "\<forall>x\<in>set ?body. \<not> terminal x"
        using True by (auto dest: set_takeWhileD)
      have b2: "\<forall>x\<in>set ?marks. terminal x"
        by (auto dest: set_takeWhileD)
      have b3: "?marks = [] \<longrightarrow> ?r = []"
      proof
        assume "?marks = []"
        then have "dropWhile ?nt cs = []" by (rule takeWhile_terminal_Nil)
        then show "?r = []" by (simp only: dropWhile.simps)
      qed
      have b4: "?r \<noteq> [] \<longrightarrow> \<not> terminal (hd ?r)"
        by (rule impI) (rule hd_dropWhile)
      from seg have "c # cs = [] @ seg @ ?r"
        by simp
      then show ?thesis using seg b0 b1 b2 b3 b4 by (rule greedy_matchI)
    next
      assume "seg \<in> set (findall_sentences U (Some (last ?m)) ?r)"
      then have "\<exists>a body marks b. ?m @ ?r = a @ seg @ b \<and> seg = body @ marks
          \<and> body \<noteq> [] \<and> (\<forall>c\<in>set body. \<not> terminal c) \<and> (\<forall>c\<in>set marks. terminal c)
          \<and> (marks = [] \<longrightarrow> b = []) \<and> (b \<noteq> [] \<longrightarrow> \<not> terminal (hd b))"
        by (intro greedy_match_shift "2.IH"(1)[OF True])
      then show ?thesis by (simp only: whole [symmetric])
    qed
  next
    case False
    with "2.prems" have "seg \<in> set (findall_sentences U (Some c) cs)" by auto
    then have "\<exists>a body marks b. [c] @ cs = a @ seg @ b \<and> seg = body @ marks
        \<and> body \<noteq> [] \<and> (\<forall>c\<in>set body. \<not> terminal c) \<and> (\<forall>c\<in>set marks. terminal c)
        \<and> (marks = [] \<longrightarrow> b = []) \<and> (b \<noteq> [] \<longrightarrow> \<not> terminal (hd b))"
      by (intro greedy_match_shift "2.IH"(2)[OF False])
    then show ?thesis by (simp only: append_Cons append_Nil)
  qed
qed

text \<open>
  The scan itself. Characters at which no match can start are passed over: a match starts
  at a word boundary before a non-terminal character.
\<close>

lemma findall_sentences_skip:
  "\<forall>i<length gap. terminal (gap ! i)
      \<or> \<not> word_boundary U (if i = 0 then prev else Some (gap ! (i - 1))) (Some (gap ! i)) \<Longrightarrow>
   findall_sentences U prev (gap @ t)
     = findall_sentences U (if gap = [] then prev else Some (last gap)) t"
proof (induction gap arbitrary: prev)
  case Nil
  show ?case by simp
next
  case (Cons g gs)
  from Cons.prems [rule_format, of 0]
  have g0: "terminal g \<or> \<not> word_boundary U prev (Some g)"
    by simp
  have rest: "\<forall>i<length gs. terminal (gs ! i)
      \<or> \<not> word_boundary U (if i = 0 then Some g else Some (gs ! (i - 1))) (Some (gs ! i))"
  proof (intro allI impI)
    fix i
    assume "i < length gs"
    with Cons.prems [rule_format, of "Suc i"]
    show "terminal (gs ! i)
      \<or> \<not> word_boundary U (if i = 0 then Some g else Some (gs ! (i - 1))) (Some (gs ! i))"
      by (cases i) simp_all
  qed
  from g0 have "findall_sentences U prev ((g # gs) @ t) = findall_sentences U (Some g) (gs @ t)"
    by auto
  also have "\<dots> = findall_sentences U (if gs = [] then Some g else Some (last gs)) t"
    by (rule Cons.IH [OF rest])
  also have "(if gs = [] then Some g else Some (last gs))
               = (if g # gs = [] then prev else Some (last (g # gs)))"
    by simp
  finally show ?case .
qed

lemma run_split:
  "\<forall>x\<in>set b. P x \<Longrightarrow> r = [] \<or> \<not> P (hd r) \<Longrightarrow>
   takeWhile P (b @ r) = b \<and> dropWhile P (b @ r) = r"
  by (cases r) simp_all

text \<open>
  A match takes the whole run of non-terminal characters and the whole run of marks
  behind it, and the scan goes on behind the marks.
\<close>

lemma findall_sentences_capture:
  assumes "body \<noteq> []" and "word_boundary U prev (Some (hd body))"
    and "\<forall>c\<in>set body. \<not> terminal c" and "\<forall>c\<in>set marks. terminal c"
    and "marks = [] \<longrightarrow> rest = []" and "rest \<noteq> [] \<longrightarrow> \<not> terminal (hd rest)"
  shows "findall_sentences U prev (body @ marks @ rest)
           = (body @ marks) # findall_sentences U (Some (last (body @ marks))) rest"
proof -
  from assms(1) obtain c b where body: "body = c # b"
    by (cases body) simp_all
  with assms(2,3) have wb: "word_boundary U prev (Some c)" and ntc: "\<not> terminal c"
    and b: "\<forall>x\<in>set b. \<not> terminal x"
    by simp_all
  have r1: "marks @ rest = [] \<or> \<not> \<not> terminal (hd (marks @ rest))"
    using assms(4,5) by (cases marks) simp_all
  have r2: "rest = [] \<or> \<not> terminal (hd rest)"
    using assms(6) by blast
  note t1 = run_split [of b "\<lambda>x. \<not> terminal x" "marks @ rest", OF b r1]
  note t2 = run_split [of marks terminal rest, OF assms(4) r2]
  from findall_sentences_match [OF wb ntc, of "b @ marks @ rest"]
  show ?thesis
    by (simp only: body append_Cons t1 t2)
qed

text \<open>
  C6: \<open>count_sentences\<close> is the maximum of 1 and the number of matches of the scan minus
  the number of matches of at most two words; when every match has at most two words the
  result is exactly 1; every match is a piece of the text made of a non-empty run of
  non-terminal characters followed by a run of the marks \<open>.\<close>, \<open>!\<close>, \<open>?\<close>, both runs
  as long as the text allows. The scan is the greedy one: over characters \<open>gap\<close> at none
  of which a match can start it finds nothing, and when they are followed by a run
  \<open>body\<close> of non-terminal characters that starts at a word boundary, by all the marks
  \<open>marks\<close> behind it and by a remainder \<open>rest\<close>, the first match is \<open>body\<close> with \<open>marks\<close>
  and the other matches are those of the scan of \<open>rest\<close>.
\<close>

theorem count_sentences_structure:
  "count_sentences U ra s
     = max 1 (int (length (findall_sentences U None s))
              - int (length (filter (\<lambda>x. count_words U ra x True \<le> 2)
                               (findall_sentences U None s))))
   \<and> ((\<forall>x\<in>set (findall_sentences U None s). count_words U ra x True \<le> 2)
        \<longrightarrow> count_sentences U ra s = 1)
   \<and> (\<forall>seg\<in>set (findall_sentences U None s).
        \<exists>a bd mk b. s = a @ seg @ b \<and> seg = bd @ mk
          \<and> bd \<noteq> [] \<and> (\<forall>c\<in>set bd. \<not> terminal c) \<and> (\<forall>c\<in>set mk. terminal c)
          \<and> (mk = [] \<longrightarrow> b = []) \<and> (b \<noteq> [] \<longrightarrow> \<not> terminal (hd b)))
   \<and> ((\<forall>i<length gap. terminal (gap ! i)
          \<or> \<not> word_boundary U (if i = 0 then prev else Some (gap ! (i - 1))) (Some (gap ! i)))
        \<longrightarrow> findall_sentences U prev gap = [])
   \<and> ((\<forall>i<length gap. terminal (gap ! i)
          \<or> \<not> word_boundary U (if i = 0 then prev else Some (gap ! (i - 1))) (Some (gap ! i)))
        \<and> body \<noteq> []
        \<and> word_boundary U (if gap = [] then prev else Some (last gap)) (Some (hd body))
        \<and> (\<forall>c\<in>set body. \<not> terminal c) \<and> (\<forall>c\<in>set marks. terminal c)
        \<and> (marks = [] \<longrightarrow> rest = []) \<and> (rest \<noteq> [] \<longrightarrow> \<not> terminal (hd rest))
        \<longrightarrow> findall_sentences U prev (gap @ body @ marks @ rest)
              = (body @ marks) # findall_sentences U (Some (last (body @ marks))) rest)"
proof (intro conjI impI ballI)
  show "count_sentences U ra s
     = max 1 (int (length (findall_sentences U None s))
              - int (length (filter (\<lambda>x. count_words U ra x True \<le> 2)
                               (findall_sentences U None s))))"
    by (rule count_sentences_eq)
next
  assume "\<forall>x\<in>set (findall_sentences U None s). count_words U ra x True \<le> 2"
  then show "count_sentences U ra s = 1"
    by (rule count_sentences_all_short)
next
  fix seg
  assume "seg \<in> set (findall_sentences U None s)"
  then show "\<exists>a bd mk b. s = a @ seg @ b \<and> seg = bd @ mk
          \<and> bd \<noteq> [] \<and> (\<forall>c\<in>set bd. \<not> terminal c) \<and> (\<forall>c\<in>set mk. terminal c)
          \<and> (mk = [] \<longrightarrow> b = []) \<and> (b \<noteq> [] \<longrightarrow> \<not> terminal (hd b))"
    by (rule findall_sentences_greedy)
next
  assume "\<forall>i<length gap. terminal (gap ! i)
          \<or> \<not> word_boundary U (if i = 0 then prev else Some (gap ! (i - 1))) (Some (gap ! i))"
  from findall_sentences_skip [OF this, of "[]"]
  show "findall_sentences U prev gap = []"
    by simp
next
  assume a: "(\<forall>i<length gap. terminal (gap ! i)
          \<or> \<not> word_boundary U (if i = 0 then prev else Some (gap ! (i - 1))) (Some (gap ! i)))
        \<and> body \<noteq> []
        \<and> word_boundary U (if gap = [] then prev else Some (last gap)) (Some (hd body))
        \<and> (\<forall>c\<in>set body. \<not> terminal c) \<and> (\<forall>c\<in>set marks. terminal c)
        \<and> (marks = [] \<longrightarrow> rest = []) \<and> (rest \<noteq> [] \<longrightarrow> \<not> terminal (hd rest))"
  then have "findall_sentences U prev (gap @ body @ marks @ rest)
      = findall_sentences U (if gap = [] then prev else Some (last gap)) (body @ marks @ rest)"
    by (intro findall_sentences_skip) (rule conjunct1)
  also from a have "\<dots> = (body @ marks) # findall_sentences U (Some (last (body @ marks))) rest"
    by (intro findall_sentences_capture) simp_all
  finally show "findall_sentences U prev (gap @ body @ marks @ rest)
              = (body @ marks) # findall_sentences U (Some (last (body @ marks))) rest" .
qed

text \<open>
  The text \<open>Hi. Yo.\<close>: two matches of one word each, and the result 1. The text
  \<open>a b c. d e f. g h i.\<close>: three matches of three words each, and the result 3.
\<close>

lemma findall_hi_yo:
  "findall_sentences arabic_tables None [72, 105, 46, 32, 89, 111, 46]
     = [[72, 105, 46], [89, 111, 46]]"
  by (simp add: word_boundary_def word_char_def isalpha_def isdigit_def terminal_def)

lemma count_words_hi: "count_words arabic_tables True [72, 105, 46] True = 1"
  by (simp add: count_words_def remove_punctuation_def str_split_def keeps_char_def
      isalpha_def isdigit_def isspace_def)

lemma count_words_yo: "count_words arabic_tables True [89, 111, 46] True = 1"
  by (simp add: count_words_def remove_punctuation_def str_split_def keeps_char_def
      isalpha_def isdigit_def isspace_def)

lemma findall_abc_def_ghi:
  "findall_sentences arabic_tables None
     [97, 32, 98, 32, 99, 46, 32, 100, 32, 101, 32, 102, 46, 32, 103, 32, 104, 32, 105, 46]
     = [[97, 32, 98, 32, 99, 46], [100, 32, 101, 32, 102, 46], [103, 32, 104, 32, 105, 46]]"
  by (simp add: word_boundary_def word_char_def isalpha_def isdigit_def terminal_def)

lemma count_words_first: "count_words arabic_tables True [97, 32, 98, 32, 99, 46] True = 3"
  by (simp add: count_words_def remove_punctuation_def str_split_def keeps_char_def
      isalpha_def isdigit_def isspace_def)

lemma count_words_second: "count_words arabic_tables True [100, 32, 101, 32, 102, 46] True = 3"
  by (simp add: count_words_def remove_punctuation_def str_split_def keeps_char_def
      isalpha_def isdigit_def isspace_def)

lemma count_words_third: "count_words arabic_tables True [103, 32, 104, 32, 105, 46] True = 3"
  by (simp add: count_words_def remove_punctuation_def str_split_def keeps_char_def
      isalpha_def isdigit_def isspace_def)

theorem count_sentences_structure_witness:
  "findall_sentences arabic_tables None [72, 105, 46, 32, 89, 111, 46]
     = [[72, 105, 46], [89, 111, 46]]
   \<and> count_words arabic_tables True [72, 105, 46] True = 1
   \<and> count_words arabic_tables True [89, 111, 46] True = 1
   \<and> count_sentences arabic_tables True [72, 105, 46, 32, 89, 111, 46] = 1
   \<and> findall_sentences arabic_tables (Some 46) [32] = []
   \<and> findall_sentences arabic_tables (Some 46) ([32] @ [89, 111] @ [46] @ [])
       = [[89, 111] @ [46]]
   \<and> count_sentences arabic_tables True
        [97, 32, 98, 32, 99, 46, 32, 100, 32, 101, 32, 102, 46, 32, 103, 32, 104, 32, 105, 46]
       = 3"
proof -
  note t = count_sentences_structure
    [where U = arabic_tables and ra = True and s = "[72, 105, 46, 32, 89, 111, 46]"
       and prev = "Some 46" and gap = "[32]" and body = "[89, 111]" and marks = "[46]"
       and rest = "[]"]
  have gap: "\<forall>i<length [32 :: nat]. terminal ([32] ! i)
      \<or> \<not> word_boundary arabic_tables (if i = 0 then Some 46 else Some ([32] ! (i - 1)))
            (Some ([32] ! i))"
    by (simp add: word_boundary_def word_char_def isalpha_def isdigit_def)
  have start: "word_boundary arabic_tables (if [32 :: nat] = [] then Some 46 else Some (last [32]))
      (Some (hd [89, 111]))"
    by (simp add: word_boundary_def word_char_def isalpha_def isdigit_def)
  have runs: "(\<forall>c\<in>set [89, 111 :: nat]. \<not> terminal c) \<and> (\<forall>c\<in>set [46 :: nat]. terminal c)"
    by (simp add: terminal_def)
  have short: "\<forall>x\<in>set (findall_sentences arabic_tables None [72, 105, 46, 32, 89, 111, 46]).
      count_words arabic_tables True x True \<le> 2"
    by (simp only: findall_hi_yo) (simp add: count_words_hi count_words_yo)
  have one: "count_sentences arabic_tables True [72, 105, 46, 32, 89, 111, 46] = 1"
    using t [THEN conjunct2, THEN conjunct1] short by (rule mp)
  have none: "findall_sentences arabic_tables (Some 46) [32] = []"
    using t [THEN conjunct2, THEN conjunct2, THEN conjunct2, THEN conjunct1] gap by (rule mp)
  have "(\<forall>i<length [32 :: nat]. terminal ([32] ! i)
      \<or> \<not> word_boundary arabic_tables (if i = 0 then Some 46 else Some ([32] ! (i - 1)))
            (Some ([32] ! i)))
      \<and> [89, 111 :: nat] \<noteq> []
      \<and> word_boundary arabic_tables (if [32 :: nat] = [] then Some 46 else Some (last [32]))
            (Some (hd [89, 111]))
      \<and> (\<forall>c\<in>set [89, 111 :: nat]. \<not> terminal c) \<and> (\<forall>c\<in>set [46 :: nat]. terminal c)
      \<and> ([46 :: nat] = [] \<longrightarrow> ([] :: nat list) = [])
      \<and> (([] :: nat list) \<noteq> [] \<longrightarrow> \<not> terminal (hd []))"
    by (intro conjI gap start runs [THEN conjunct1] runs [THEN conjunct2]) simp_all
  with t [THEN conjunct2, THEN conjunct2, THEN conjunct2, THEN conjunct2]
  have "findall_sentences arabic_tables (Some 46) ([32] @ [89, 111] @ [46] @ [])
       = ([89, 111] @ [46])
         # findall_sentences arabic_tables (Some (last ([89, 111] @ [46]))) []"
    by (rule mp)
  then have first: "findall_sentences arabic_tables (Some 46) ([32] @ [89, 111] @ [46] @ [])
       = [[89, 111] @ [46]]"
    by (simp only: findall_sentences.simps(1))
  have three: "count_sentences arabic_tables True
        [97, 32, 98, 32, 99, 46, 32, 100, 32, 101, 32, 102, 46, 32, 103, 32, 104, 32, 105, 46]
       = 3"
    by (simp only: count_sentences_eq findall_abc_def_ghi)
      (simp add: count_words_first count_words_second count_words_third)
  show ?thesis
    by (intro conjI findall_hi_yo count_words_hi count_words_yo one none first three)
qed

section \<open>Terminal marks appended to a text\<close>

lemma terminal_not_kept: "terminal c \<Longrightarrow> \<not> keeps_char U ra p c cs"
  by (auto simp: terminal_def keeps_char_def isalpha_def isdigit_def isspace_def)

lemma terminal_not_alpha: "terminal c \<Longrightarrow> \<not> isalpha U c"
  by (auto simp: terminal_def isalpha_def)

lemma strip_punct_terminals: "\<forall>c\<in>set q. terminal c \<Longrightarrow> strip_punct U ra p q = []"
  by (induction q arbitrary: p) (auto simp: terminal_not_kept)

lemma keeps_char_terminals:
  "\<forall>c\<in>set q. terminal c \<Longrightarrow> keeps_char U ra p c (cs @ q) = keeps_char U ra p c cs"
  by (cases cs; cases q) (auto simp: keeps_char_def terminal_not_alpha)

lemma strip_punct_append_terminals:
  "\<forall>c\<in>set q. terminal c \<Longrightarrow> strip_punct U ra p (s @ q) = strip_punct U ra p s"
  by (induction s arbitrary: p) (auto simp: strip_punct_terminals keeps_char_terminals)

text \<open>Marks behind a text add no word to it.\<close>

lemma count_words_append_terminals:
  "\<forall>c\<in>set q. terminal c \<Longrightarrow> count_words U ra (s @ q) True = count_words U ra s True"
  by (simp add: count_words_def remove_punctuation_def strip_punct_append_terminals)

lemma findall_sentences_terminals:
  "\<forall>c\<in>set q. terminal c \<Longrightarrow> findall_sentences U prev q = []"
  by (induction q arbitrary: prev) auto

lemma takeWhile_nt_terminals: "\<forall>c\<in>set q. terminal c \<Longrightarrow> takeWhile (\<lambda>x. \<not> terminal x) q = []"
  by (cases q) auto

lemma dropWhile_nt_terminals: "\<forall>c\<in>set q. terminal c \<Longrightarrow> dropWhile (\<lambda>x. \<not> terminal x) q = q"
  by (cases q) auto

lemma takeWhile_nt_append_terminals:
  "\<forall>c\<in>set q. terminal c \<Longrightarrow>
   takeWhile (\<lambda>x. \<not> terminal x) (cs @ q) = takeWhile (\<lambda>x. \<not> terminal x) cs"
  by (induction cs) (simp_all add: takeWhile_nt_terminals)

lemma dropWhile_nt_append_terminals:
  "\<forall>c\<in>set q. terminal c \<Longrightarrow>
   dropWhile (\<lambda>x. \<not> terminal x) (cs @ q) = dropWhile (\<lambda>x. \<not> terminal x) cs @ q"
  by (induction cs) (simp_all add: dropWhile_nt_terminals)

lemma takeWhile_terminal_append_all:
  "\<forall>c\<in>set q. terminal c \<Longrightarrow> \<forall>y\<in>set d. terminal y \<Longrightarrow>
   takeWhile terminal (d @ q) = d @ q \<and> dropWhile terminal (d @ q) = []
   \<and> takeWhile terminal d = d \<and> dropWhile terminal d = []"
  by simp

lemma takeWhile_terminal_append_some:
  "y \<in> set d \<Longrightarrow> \<not> terminal y \<Longrightarrow>
   takeWhile terminal (d @ q) = takeWhile terminal d
   \<and> dropWhile terminal (d @ q) = dropWhile terminal d @ q"
  by (simp add: takeWhile_append1 dropWhile_append1)

text \<open>
  The scan of the longer text finds the same matches, the last one possibly longer by the
  appended marks; the word counts of the matches are the same list.
\<close>

lemma findall_sentences_append_terminals:
  assumes q: "\<forall>c\<in>set q. terminal c"
  shows "map (\<lambda>x. count_words U ra x True) (findall_sentences U prev (s @ q))
         = map (\<lambda>x. count_words U ra x True) (findall_sentences U prev s)"
proof (induction U prev s rule: findall_sentences.induct)
  case (1 U prev)
  show ?case using q by (simp add: findall_sentences_terminals)
next
  case (2 U prev c cs)
  let ?nt = "\<lambda>x. \<not> terminal x"
  let ?cw = "\<lambda>x. count_words U ra x True"
  let ?b = "takeWhile ?nt cs"
  let ?d = "dropWhile ?nt cs"
  show ?case
  proof (cases "word_boundary U prev (Some c) \<and> \<not> terminal c")
    case False
    then have "findall_sentences U prev (c # cs @ q) = findall_sentences U (Some c) (cs @ q)"
      and "findall_sentences U prev (c # cs) = findall_sentences U (Some c) cs"
      by auto
    with "2.IH"(2) False show ?thesis by simp
  next
    case True
    then have wb: "word_boundary U prev (Some c)" and ntc: "\<not> terminal c"
      by simp_all
    have m1: "findall_sentences U prev (c # cs @ q)
                = (c # ?b @ takeWhile terminal (?d @ q))
                  # findall_sentences U (Some (last (c # ?b @ takeWhile terminal (?d @ q))))
                      (dropWhile terminal (?d @ q))"
      using findall_sentences_match[OF wb ntc, of "cs @ q"]
      by (simp only: takeWhile_nt_append_terminals[OF q] dropWhile_nt_append_terminals[OF q])
    note m0 = findall_sentences_match[OF wb ntc, of cs]
    show ?thesis
    proof (cases "\<forall>y\<in>set ?d. terminal y")
      case allt: True
      note e = takeWhile_terminal_append_all[OF q allt]
      have lhs: "findall_sentences U prev (c # cs @ q) = [c # ?b @ ?d @ q]"
        using m1 by (simp only: e findall_sentences.simps(1))
      have rhs: "findall_sentences U prev (c # cs) = [c # ?b @ ?d]"
        using m0 by (simp only: e findall_sentences.simps(1))
      have cw: "?cw (c # ?b @ ?d @ q) = ?cw (c # ?b @ ?d)"
        using count_words_append_terminals[OF q, of U ra "c # ?b @ ?d"]
        by (simp only: append_Cons append_assoc)
      show ?thesis by (simp only: append_Cons lhs rhs list.map cw)
    next
      case False
      then obtain y where y: "y \<in> set ?d" "\<not> terminal y" by blast
      note e = takeWhile_terminal_append_some[OF y, of q]
      let ?m = "c # ?b @ takeWhile terminal ?d"
      let ?r = "dropWhile terminal ?d"
      have lhs: "findall_sentences U prev (c # cs @ q)
                   = ?m # findall_sentences U (Some (last ?m)) (?r @ q)"
        using m1 by (simp only: e)
      have ih: "map ?cw (findall_sentences U (Some (last ?m)) (?r @ q))
                  = map ?cw (findall_sentences U (Some (last ?m)) ?r)"
        by (rule "2.IH"(1)[OF True])
      show ?thesis by (simp only: append_Cons lhs m0 list.map ih)
    qed
  qed
qed

lemma count_sentences_via_map:
  "count_sentences U ra s
     = max 1 (int (length (map (\<lambda>x. count_words U ra x True) (findall_sentences U None s)))
              - int (length (filter (\<lambda>n. n \<le> 2)
                               (map (\<lambda>x. count_words U ra x True) (findall_sentences U None s)))))"
  by (simp add: count_sentences_eq filter_map comp_def)

lemma count_sentences_append_terminals_eq:
  "\<forall>c\<in>set p. terminal c \<Longrightarrow> count_sentences U ra (s @ p) = count_sentences U ra s"
  by (simp only: count_sentences_via_map findall_sentences_append_terminals)

text \<open>
  C9: for every text and every non-empty string of the marks \<open>.\<close>, \<open>!\<close>, \<open>?\<close>, the
  sentence count of the text followed by the marks is at least the sentence count of the
  text.
\<close>

theorem count_sentences_append_terminals:
  "p \<noteq> [] \<Longrightarrow> \<forall>c\<in>set p. terminal c \<Longrightarrow>
   count_sentences U ra s \<le> count_sentences U ra (s @ p)"
  by (simp only: count_sentences_append_terminals_eq order_refl)

theorem count_sentences_append_terminals_witness:
  "[33, 63] \<noteq> [] \<and> terminal 33 \<and> terminal 63
   \<and> count_sentences arabic_tables True [72, 105]
        \<le> count_sentences arabic_tables True ([72, 105] @ [33, 63])"
  using count_sentences_append_terminals
    [where p = "[33, 63]" and U = arabic_tables and ra = True and s = "[72, 105]"]
  by (simp add: terminal_def)

section \<open>The tally of the votes\<close>

text \<open>
  The counter of a list of votes: its keys are the values of the list in the order of
  their first votes, each once, with the number of its votes.
\<close>

lemma counter_incr_keys:
  "map fst (counter_incr v d) = (if v \<in> set (map fst d) then map fst d else map fst d @ [v])"
  by (induction v d rule: counter_incr.induct) auto

lemma counter_incr_lookup:
  "map_of (counter_incr v d) k
     = (if k = v then Some (case map_of d v of None \<Rightarrow> 1 | Some n \<Rightarrow> n + 1) else map_of d k)"
  by (induction v d rule: counter_incr.induct) auto

lemma Counter_snoc: "Counter (xs @ [v]) = counter_incr v (Counter xs)"
  by (simp add: Counter_def)

lemma Counter_keys_set: "set (map fst (Counter xs)) = set xs"
proof (induction xs rule: rev_induct)
  case Nil
  show ?case by (simp add: Counter_def)
next
  case (snoc v xs)
  then show ?case by (auto simp: Counter_snoc counter_incr_keys)
qed

lemma Counter_keys_image: "fst ` set (Counter xs) = set xs"
  using Counter_keys_set[of xs] by simp

lemma Counter_distinct: "distinct (map fst (Counter xs))"
proof (induction xs rule: rev_induct)
  case Nil
  show ?case by (simp add: Counter_def)
next
  case (snoc v xs)
  then show ?case by (simp add: Counter_snoc counter_incr_keys Counter_keys_image)
qed

lemma Counter_lookup:
  "map_of (Counter xs) k = (if k \<in> set xs then Some (count_list xs k) else None)"
proof (induction xs arbitrary: k rule: rev_induct)
  case Nil
  show ?case by (simp add: Counter_def)
next
  case (snoc v xs)
  then show ?case by (simp add: Counter_snoc counter_incr_lookup)
qed

lemma Counter_item: "(k, n) \<in> set (Counter xs) \<Longrightarrow> k \<in> set xs \<and> n = count_list xs k"
proof -
  assume "(k, n) \<in> set (Counter xs)"
  then have "map_of (Counter xs) k = Some n"
    using Counter_distinct[of xs] by simp
  then show ?thesis
    by (simp add: Counter_lookup split: if_splits)
qed

lemma Counter_key_order:
  "map fst (Counter xs) = a @ k # b \<Longrightarrow>
   \<exists>pre post. xs = pre @ k # post \<and> k \<notin> set pre \<and> set pre \<subseteq> set a"
proof (induction xs arbitrary: b rule: rev_induct)
  case Nil
  then show ?case by (simp add: Counter_def)
next
  case (snoc v xs)
  show ?case
  proof (cases "v \<in> set xs")
    case True
    with snoc.prems have "map fst (Counter xs) = a @ k # b"
      by (simp add: Counter_snoc counter_incr_keys Counter_keys_image)
    from snoc.IH[OF this] obtain pre post where
      pp: "xs = pre @ k # post" "k \<notin> set pre" "set pre \<subseteq> set a" by blast
    from pp(1) have "xs @ [v] = pre @ k # (post @ [v])" by simp
    with pp(2,3) show ?thesis by blast
  next
    case False
    with snoc.prems have e: "map fst (Counter xs) @ [v] = a @ k # b"
      by (simp add: Counter_snoc counter_incr_keys Counter_keys_image)
    show ?thesis
    proof (cases b rule: rev_cases)
      case Nil
      with e have ka: "map fst (Counter xs) = a" "v = k" by simp_all
      then have "set xs = set a" using Counter_keys_set[of xs] by (simp only:)
      with False ka(2) have "xs @ [v] = xs @ k # []" "k \<notin> set xs" "set xs \<subseteq> set a"
        by simp_all
      then show ?thesis by blast
    next
      case (snoc b' w)
      with e have "map fst (Counter xs) = a @ k # b'" by simp
      from snoc.IH[OF this] obtain pre post where
        pp: "xs = pre @ k # post" "k \<notin> set pre" "set pre \<subseteq> set a" by blast
      from pp(1) have "xs @ [v] = pre @ k # (post @ [v])" by simp
      with pp(2,3) show ?thesis by blast
    qed
  qed
qed


text \<open>
  \<open>max\<close> returns the first of the items with the greatest count: the items before it
  have a smaller count, the items behind it have no greater one.
\<close>

lemma first_max_split:
  "first_max best xs = m \<Longrightarrow>
   \<exists>l r. best # xs = l @ m # r \<and> (\<forall>x\<in>set l. snd x < snd m) \<and> (\<forall>x\<in>set r. snd x \<le> snd m)"
proof (induction xs arbitrary: best)
  case Nil
  then have "best # [] = [] @ m # []" "\<forall>x\<in>set []. snd x < snd m"
    "\<forall>x\<in>set []. snd x \<le> snd m"
    by simp_all
  then show ?case by blast
next
  case (Cons x xs)
  show ?case
  proof (cases "snd x > snd best")
    case True
    with Cons.prems have "first_max x xs = m" by simp
    from Cons.IH[OF this] obtain l r where
      lr: "x # xs = l @ m # r" "\<forall>y\<in>set l. snd y < snd m" "\<forall>y\<in>set r. snd y \<le> snd m"
      by blast
    have "x \<in> set (x # xs)" by simp
    then have "x \<in> set l \<or> x = m \<or> x \<in> set r" by (simp only: lr(1)) auto
    with lr(2,3) have "snd x \<le> snd m" by auto
    with True have "snd best < snd m" by simp
    with lr(1,2) have "best # x # xs = (best # l) @ m # r"
      "\<forall>y\<in>set (best # l). snd y < snd m" by simp_all
    with lr(3) show ?thesis by blast
  next
    case False
    with Cons.prems have "first_max best xs = m" by simp
    from Cons.IH[OF this] obtain l r where
      lr: "best # xs = l @ m # r" "\<forall>y\<in>set l. snd y < snd m" "\<forall>y\<in>set r. snd y \<le> snd m"
      by blast
    show ?thesis
    proof (cases l)
      case Nil
      with lr(1) have bm: "best = m" "xs = r" by simp_all
      with False lr(3) have "best # x # xs = [] @ m # (x # r)"
        "\<forall>y\<in>set []. snd y < snd m" "\<forall>y\<in>set (x # r). snd y \<le> snd m" by simp_all
      then show ?thesis by blast
    next
      case (Cons b l')
      with lr(1,2) have b: "b = best" "xs = l' @ m # r" "snd best < snd m" by simp_all
      with False have "snd x < snd m" by simp
      with b lr(2) Cons have "best # x # xs = (best # x # l') @ m # r"
        "\<forall>y\<in>set (best # x # l'). snd y < snd m" by simp_all
      with lr(3) show ?thesis by blast
    qed
  qed
qed

text \<open>
  The item that \<open>most_common(1)\<close> returns for a non-empty list of votes: a value of the
  greatest count, such that every value voted before its first vote has a smaller count.
\<close>

lemma most_common1_consensus:
  assumes ne: "votes \<noteq> []"
  shows "\<exists>g n pre post. most_common1 (Counter votes) = [(g, n)]
           \<and> votes = pre @ g # post \<and> g \<notin> set pre
           \<and> (\<forall>v. count_list votes v \<le> count_list votes g)
           \<and> (\<forall>v\<in>set pre. count_list votes v < count_list votes g)"
proof -
  from ne have "Counter votes \<noteq> []"
    using Counter_keys_image[of votes] by auto
  then obtain x xs where d: "Counter votes = x # xs"
    by (cases "Counter votes") simp_all
  obtain g n where m: "first_max x xs = (g, n)"
    by (cases "first_max x xs")
  from first_max_split[OF m] d obtain l r where
    lr: "Counter votes = l @ (g, n) # r" "\<forall>y\<in>set l. snd y < n" "\<forall>y\<in>set r. snd y \<le> n"
    by auto
  from lr(1) have "(g, n) \<in> set (Counter votes)" by simp
  then have n: "n = count_list votes g" using Counter_item by blast
  from lr(1) have "map fst (Counter votes) = map fst l @ g # map fst r" by simp
  from Counter_key_order[OF this] obtain pre post where
    pp: "votes = pre @ g # post" "g \<notin> set pre" "set pre \<subseteq> set (map fst l)" by blast
  have le: "count_list votes v \<le> count_list votes g" for v
  proof (cases "v \<in> set votes")
    case True
    then have "v \<in> fst ` set (Counter votes)" by (simp only: Counter_keys_image)
    then obtain c where c: "(v, c) \<in> set (Counter votes)" by auto
    then have "c = count_list votes v" using Counter_item by blast
    moreover from c have "(v, c) \<in> set l \<or> (v, c) = (g, n) \<or> (v, c) \<in> set r"
      by (simp only: lr(1)) auto
    with lr(2,3) have "c \<le> n" by auto
    ultimately show ?thesis using n by simp
  next
    case False
    then show ?thesis by (simp add: count_notin)
  qed
  have lt: "count_list votes v < count_list votes g" if "v \<in> set pre" for v
  proof -
    from that pp(3) obtain c where c: "(v, c) \<in> set l" by auto
    then have "(v, c) \<in> set (Counter votes)" by (simp add: lr(1))
    then have "c = count_list votes v" using Counter_item by blast
    moreover from c lr(2) have "c < n" by auto
    ultimately show ?thesis using n by simp
  qed
  have "most_common1 (Counter votes) = [(g, n)]"
    by (simp add: most_common1_def d m)
  with pp(1,2) le lt show ?thesis by blast
qed

lemma grade_votes_nonempty: "grade_votes U ra K s lang \<noteq> []"
  by (simp add: grade_votes_def floor_ceil_votes_def)

text \<open>
  C2: \<open>text_standard\<close> returns a value \<open>g\<close> of its list of votes such that no value has
  more votes than \<open>g\<close>, and every value with a vote appended before the first vote for
  \<open>g\<close> has fewer votes than \<open>g\<close>: among the values of the greatest count, the one whose
  vote was appended first.
\<close>

theorem text_standard_consensus:
  "\<exists>g pre post. text_standard U ra K s lang = Inr (real_of_int g)
     \<and> grade_votes U ra K s lang = pre @ g # post \<and> g \<notin> set pre
     \<and> (\<forall>v. count_list (grade_votes U ra K s lang) v \<le> count_list (grade_votes U ra K s lang) g)
     \<and> (\<forall>v\<in>set pre. count_list (grade_votes U ra K s lang) v
                        < count_list (grade_votes U ra K s lang) g)"
proof -
  from most_common1_consensus[OF grade_votes_nonempty[of U ra K s lang]]
  obtain g n pre post where
    c: "most_common1 (Counter (grade_votes U ra K s lang)) = [(g, n)]"
      "grade_votes U ra K s lang = pre @ g # post" "g \<notin> set pre"
      "\<forall>v. count_list (grade_votes U ra K s lang) v \<le> count_list (grade_votes U ra K s lang) g"
      "\<forall>v\<in>set pre. count_list (grade_votes U ra K s lang) v
                        < count_list (grade_votes U ra K s lang) g"
    by (elim exE conjE)
  from c(1) have "text_standard U ra K s lang = Inr (real_of_int g)"
    by (simp add: text_standard_def)
  with c(2-5) show ?thesis by blast
qed


theorem text_standard_consensus_witness:
  "grade_votes arabic_tables True tie_collaborators [] ''en_US''
     = [6, 6, 5] @ 0 # [0, - 3, - 3, 0, 0, 13, 13, 13, 13, - 3, - 3]
   \<and> count_list (grade_votes arabic_tables True tie_collaborators [] ''en_US'') 0 = 4
   \<and> count_list (grade_votes arabic_tables True tie_collaborators [] ''en_US'') (- 3) = 4
   \<and> count_list (grade_votes arabic_tables True tie_collaborators [] ''en_US'') 13 = 4
   \<and> count_list (grade_votes arabic_tables True tie_collaborators [] ''en_US'') 6 = 2
   \<and> count_list (grade_votes arabic_tables True tie_collaborators [] ''en_US'') 5 = 1
   \<and> text_standard arabic_tables True tie_collaborators [] ''en_US'' = Inr 0"
  using text_standard_consensus [of arabic_tables True tie_collaborators "[]" "''en_US''"]
  by (simp add: grade_votes_tie text_standard_def Counter_def most_common1_def)

section \<open>The public wrapper at the empty text\<close>

lemma legacy_round_zero: "legacy_round T 0 = 0"
  by (simp add: legacy_round_def py_round_def round_half_even_def split: option.splits)

lemma reading_ease_votes_cases:
  "reading_ease_votes r \<in> {[5], [6], [7], [8, 9], [10], [11], [12], [13]}"
  by (simp add: reading_ease_votes_def)

text \<open>
  When the five other formulas score the empty text 0, as the two formulas of the source
  do, 0 has fourteen of the fifteen or sixteen votes.
\<close>

lemma text_standard_empty:
  assumes "flesch_kincaid_grade K [] lang = 0" and "coleman_liau_index K [] = 0"
    and "dale_chall_readability_score K [] lang = 0" and "linsear_write_formula K [] lang = 0"
    and "gunning_fog K [] lang = 0"
  shows "text_standard U ra K [] lang = Inr 0"
proof -
  have votes: "grade_votes U ra K [] lang
      = [0, 0] @ reading_ease_votes (flesch_reading_ease K [] lang)
        @ [0, 0, 0, 0, 0, 0, 0, 0, 0, 0, 0, 0]"
    by (simp add: grade_votes_def floor_ceil_votes_def assms automated_readability_index_empty
        smog_index_empty)
  from reading_ease_votes_cases [of "flesch_reading_ease K [] lang"]
  show ?thesis
    by (auto simp: text_standard_def votes Counter_def most_common1_def)
qed

lemma str_int_minus_one: "str_int (- 1) = ''-1''"
  by (simp add: str_int_def)

lemma str_int_zero: "str_int 0 = ''0''"
  by (simp add: str_int_def)

lemma wrapper_zero:
  assumes "text_standard U ra K s (lang_attr T) = Inr 0"
  shows "textstatistics_text_standard T U ra K s True = Inr (FloatOut 0)"
    and "textstatistics_text_standard T U ra K s False
           = Inr (StrOut (''-1'' @ get_grade_suffix K (- 1) @ '' and 0''
                          @ get_grade_suffix K 0 @ '' grade''))"
  by (simp_all add: textstatistics_text_standard_def assms legacy_round_zero py_int_def
      str_int_minus_one str_int_zero)

lemma wrapper_not_both:
  assumes "round_points T = None"
  shows "\<not> (textstatistics_text_standard T U ra K s True = Inr (FloatOut 0)
            \<and> textstatistics_text_standard T U ra K s False = Inr (StrOut ''0th and 1st grade''))"
proof (cases "text_standard U ra K s (lang_attr T)")
  case (Inl e)
  then show ?thesis by (simp add: textstatistics_text_standard_def)
next
  case (Inr v)
  show ?thesis
  proof
    assume a: "textstatistics_text_standard T U ra K s True = Inr (FloatOut 0)
            \<and> textstatistics_text_standard T U ra K s False = Inr (StrOut ''0th and 1st grade'')"
    with Inr assms have "v = 0"
      by (simp add: textstatistics_text_standard_def legacy_round_def)
    with Inr have "text_standard U ra K s (lang_attr T) = Inr 0" by simp
    from wrapper_zero(2) [OF this] a show False by simp
  qed
qed

text \<open>
  C1: for the empty text, when the five formulas that are not among the source files
  score it 0, the float form is 0.0 and the string form is made of -1 and 0 with their
  suffixes, not \<open>0th and 1st grade\<close>: the string is rendered from \<open>g - 1\<close> and \<open>g\<close>.
  And for no text and no collaborators does an instance that does not round return both
  0.0 and \<open>0th and 1st grade\<close>.
\<close>

theorem textstatistics_text_standard_empty:
  "(flesch_kincaid_grade K [] (lang_attr T) = 0 \<and> coleman_liau_index K [] = 0
      \<and> dale_chall_readability_score K [] (lang_attr T) = 0
      \<and> linsear_write_formula K [] (lang_attr T) = 0 \<and> gunning_fog K [] (lang_attr T) = 0
     \<longrightarrow> textstatistics_text_standard T U ra K [] True = Inr (FloatOut 0)
       \<and> textstatistics_text_standard T U ra K [] False
           = Inr (StrOut (''-1'' @ get_grade_suffix K (- 1) @ '' and 0''
                          @ get_grade_suffix K 0 @ '' grade''))
       \<and> textstatistics_text_standard T U ra K [] False \<noteq> Inr (StrOut ''0th and 1st grade''))
   \<and> (round_points T = None
     \<longrightarrow> \<not> (textstatistics_text_standard T U ra K s True = Inr (FloatOut 0)
            \<and> textstatistics_text_standard T U ra K s False
                = Inr (StrOut ''0th and 1st grade'')))"
proof (intro conjI impI)
  assume a: "flesch_kincaid_grade K [] (lang_attr T) = 0 \<and> coleman_liau_index K [] = 0
      \<and> dale_chall_readability_score K [] (lang_attr T) = 0
      \<and> linsear_write_formula K [] (lang_attr T) = 0 \<and> gunning_fog K [] (lang_attr T) = 0"
  then have z: "text_standard U ra K [] (lang_attr T) = Inr 0"
    by (intro text_standard_empty) simp_all
  show "textstatistics_text_standard T U ra K [] True = Inr (FloatOut 0)"
    by (rule wrapper_zero(1) [OF z])
  show "textstatistics_text_standard T U ra K [] False
           = Inr (StrOut (''-1'' @ get_grade_suffix K (- 1) @ '' and 0''
                          @ get_grade_suffix K 0 @ '' grade''))"
    by (rule wrapper_zero(2) [OF z])
  show "textstatistics_text_standard T U ra K [] False \<noteq> Inr (StrOut ''0th and 1st grade'')"
    by (simp add: wrapper_zero(2) [OF z])
next
  assume "round_points T = None"
  then show "\<not> (textstatistics_text_standard T U ra K s True = Inr (FloatOut 0)
            \<and> textstatistics_text_standard T U ra K s False
                = Inr (StrOut ''0th and 1st grade''))"
    by (rule wrapper_not_both)
qed

theorem textstatistics_text_standard_empty_witness:
  "round_points default_instance = None
   \<and> flesch_kincaid_grade sample_collaborators [] (lang_attr default_instance) = 0
   \<and> coleman_liau_index sample_collaborators [] = 0
   \<and> dale_chall_readability_score sample_collaborators [] (lang_attr default_instance) = 0
   \<and> linsear_write_formula sample_collaborators [] (lang_attr default_instance) = 0
   \<and> gunning_fog sample_collaborators [] (lang_attr default_instance) = 0
   \<and> textstatistics_text_standard default_instance arabic_tables True sample_collaborators []
        True = Inr (FloatOut 0)
   \<and> textstatistics_text_standard default_instance arabic_tables True sample_collaborators []
        False = Inr (StrOut ''-1th and 0th grade'')"
  using textstatistics_text_standard_empty
    [where T = default_instance and K = sample_collaborators and U = arabic_tables
       and ra = True and s = "[]"]
  by (simp add: sample_collaborators_def default_instance_def ordinal_suffix_def)

end
